theory Spec2Isabelle
  imports
    Complex_Main
    "HOL-Library.Char_ord"
    "HOL-Library.List_Lexorder"
    "HOL-Library.Product_Lexorder"
begin

section \<open>Data model\<close>

text \<open>
  The program of \<^verbatim>\<open>PythonApplication1.py\<close> searches a graph of cities. A city is
  named by a string; the graph is a dictionary from a city to the list of its neighbours;
  the coordinates are a dictionary from a city to a pair (latitude, longitude) of floats.

  A search function returns a path (a list of cities) or Python's \<^verbatim>\<open>None\<close>. A
  dictionary lookup \<^verbatim>\<open>cities[city]\<close> on a missing key raises \<^verbatim>\<open>KeyError\<close>, and a
  square \<^verbatim>\<open>x ** 2\<close> whose result is out of the range of the floats raises
  \<^verbatim>\<open>OverflowError\<close>; these are the exceptions of the search functions in this model.
\<close>

type_synonym node = string
type_synonym path = "node list"
type_synonym graph = "node \<rightharpoonup> node list"
type_synonym 'f coords = "node \<rightharpoonup> 'f \<times> 'f"

datatype result = Path path | NoPath

datatype error = KeyError node | OverflowError

text \<open>\<^verbatim>\<open>graph.get(current, [])\<close>\<close>

definition graph_get :: "graph \<Rightarrow> node \<Rightarrow> node list" where
  "graph_get graph current = (case graph current of None \<Rightarrow> [] | Some ns \<Rightarrow> ns)"

text \<open>The truth value Python gives a result in \<^verbatim>\<open>if result:\<close>: \<^verbatim>\<open>None\<close> and the empty
  list are false.\<close>

fun truthy :: "result \<Rightarrow> bool" where
  "truthy NoPath = False"
| "truthy (Path p) = (p \<noteq> [])"

section \<open>Loading the adjacency list\<close>

text \<open>
  \<^verbatim>\<open>graph.setdefault(k, []).append(v)\<close>: the list of \<open>k\<close> (empty when \<open>k\<close> is new)
  gets \<open>v\<close> at its end.
\<close>

definition setdefault_append :: "graph \<Rightarrow> node \<Rightarrow> node \<Rightarrow> graph" where
  "setdefault_append graph k v = graph(k \<mapsto> graph_get graph k @ [v])"

text \<open>
  One line of the file, already stripped and split at whitespace into its tokens. A row
  that does not have two tokens is skipped (the diagnostic it prints is not modelled).
\<close>

fun load_row :: "graph \<Rightarrow> string list \<Rightarrow> graph" where
  "load_row graph [city1, city2] =
     setdefault_append (setdefault_append graph city1 city2) city2 city1"
| "load_row graph row = graph"

definition load_adjacencies :: "string list list \<Rightarrow> graph" where
  "load_adjacencies rows = foldl load_row Map.empty rows"

section \<open>The timing harness\<close>






section \<open>Breadth-first and depth-first search\<close>

text \<open>
  The \<^verbatim>\<open>while queue:\<close> loop of \<^verbatim>\<open>bfs\<close>. The queue holds pairs (city, path); the
  front of the deque is the head of the list. A loop that does not end has the value
  \<open>None\<close>.
\<close>

partial_function (option) bfs_loop ::
  "graph \<Rightarrow> node \<Rightarrow> (node \<times> path) list \<Rightarrow> node set \<Rightarrow> result option" where
  "bfs_loop graph goal queue visited =
     (case queue of
        [] \<Rightarrow> Some NoPath
      | (current, path) # rest \<Rightarrow>
          if current = goal then Some (Path path)
          else if current \<notin> visited then
            bfs_loop graph goal
              (rest @ map (\<lambda>neighbor. (neighbor, path @ [neighbor])) (graph_get graph current))
              (insert current visited)
          else bfs_loop graph goal rest visited)"

definition bfs :: "graph \<Rightarrow> node \<Rightarrow> node \<Rightarrow> result option" where
  "bfs graph start goal = bfs_loop graph goal [(start, [start])] {}"

text \<open>
  The loop of \<^verbatim>\<open>dfs\<close>. The stack is a Python list: \<^verbatim>\<open>pop()\<close> takes its last
  element and \<^verbatim>\<open>append\<close> adds at the end.
\<close>

partial_function (option) dfs_loop ::
  "graph \<Rightarrow> node \<Rightarrow> (node \<times> path) list \<Rightarrow> node set \<Rightarrow> result option" where
  "dfs_loop graph goal stack visited =
     (if stack = [] then Some NoPath
      else case last stack of (current, path) \<Rightarrow>
        if current = goal then Some (Path path)
        else if current \<notin> visited then
          dfs_loop graph goal
            (butlast stack @ map (\<lambda>neighbor. (neighbor, path @ [neighbor])) (graph_get graph current))
            (insert current visited)
        else dfs_loop graph goal (butlast stack) visited)"

definition dfs :: "graph \<Rightarrow> node \<Rightarrow> node \<Rightarrow> result option" where
  "dfs graph start goal = dfs_loop graph goal [(start, [start])] {}"

section \<open>Iterative deepening\<close>

text \<open>
  The nested function \<^verbatim>\<open>dls(node, path, depth)\<close> and its \<^verbatim>\<open>for neighbor in ...\<close>
  loop. \<^verbatim>\<open>iddfs\<close> calls it with the values of \<^verbatim>\<open>range(max_depth)\<close> only, and the
  recursion subtracts one from a depth that is not zero, so the depth is a natural
  number. \<open>dls_for\<close> is the loop over the neighbours that are left; its last argument is
  \<^verbatim>\<open>depth - 1\<close>, the depth of the recursive calls it makes.
\<close>

fun dls :: "graph \<Rightarrow> node \<Rightarrow> node \<Rightarrow> path \<Rightarrow> nat \<Rightarrow> result"
  and dls_for :: "graph \<Rightarrow> node \<Rightarrow> node list \<Rightarrow> path \<Rightarrow> nat \<Rightarrow> result" where
  "dls graph goal node path 0 = NoPath"
| "dls graph goal node path (Suc d) =
     (if node = goal then Path path
      else dls_for graph goal (graph_get graph node) path d)"
| "dls_for graph goal [] path d = NoPath"
| "dls_for graph goal (neighbor # rest) path d =
     (if neighbor \<notin> set path then
        (let new_path = dls graph goal neighbor (path @ [neighbor]) d in
         if truthy new_path then new_path
         else dls_for graph goal rest path d)
      else dls_for graph goal rest path d)"

text \<open>The loop \<^verbatim>\<open>for depth in range(max_depth)\<close> over the depths that are left.\<close>

fun iddfs_for :: "graph \<Rightarrow> node \<Rightarrow> node \<Rightarrow> nat list \<Rightarrow> result" where
  "iddfs_for graph start goal [] = NoPath"
| "iddfs_for graph start goal (depth # rest) =
     (let result = dls graph goal start [start] depth in
      if truthy result then result
      else iddfs_for graph start goal rest)"

definition iddfs :: "graph \<Rightarrow> node \<Rightarrow> node \<Rightarrow> int \<Rightarrow> result" where
  "iddfs graph start goal max_depth = iddfs_for graph start goal [0..<nat max_depth]"

text \<open>The default value of the parameter \<^verbatim>\<open>max_depth\<close>.\<close>

definition default_max_depth :: int where
  "default_max_depth = 20"

text \<open>
  The same three functions without the knowledge that the recursion ends: every call of
  \<^verbatim>\<open>dls\<close> and every iteration of a \<^verbatim>\<open>for\<close> loop uses one unit of fuel, and a run
  that is out of fuel has the value \<open>None\<close>. Here the depth is decremented where the
  code decrements it, in the recursive call.
\<close>

fun dls_fuel :: "nat \<Rightarrow> graph \<Rightarrow> node \<Rightarrow> node \<Rightarrow> path \<Rightarrow> nat \<Rightarrow> result option"
  and dls_for_fuel :: "nat \<Rightarrow> graph \<Rightarrow> node \<Rightarrow> node list \<Rightarrow> path \<Rightarrow> nat \<Rightarrow> result option" where
  "dls_fuel 0 graph goal node path depth = None"
| "dls_fuel (Suc fuel) graph goal node path depth =
     (if depth = 0 then Some NoPath
      else if node = goal then Some (Path path)
      else dls_for_fuel fuel graph goal (graph_get graph node) path depth)"
| "dls_for_fuel 0 graph goal neighbors path depth = None"
| "dls_for_fuel (Suc fuel) graph goal [] path depth = Some NoPath"
| "dls_for_fuel (Suc fuel) graph goal (neighbor # rest) path depth =
     (if neighbor \<notin> set path then
        (case dls_fuel fuel graph goal neighbor (path @ [neighbor]) (depth - 1) of
           None \<Rightarrow> None
         | Some new_path \<Rightarrow>
             if truthy new_path then Some new_path
             else dls_for_fuel fuel graph goal rest path depth)
      else dls_for_fuel fuel graph goal rest path depth)"

fun iddfs_for_fuel :: "nat \<Rightarrow> graph \<Rightarrow> node \<Rightarrow> node \<Rightarrow> nat list \<Rightarrow> result option" where
  "iddfs_for_fuel 0 graph start goal depths = None"
| "iddfs_for_fuel (Suc fuel) graph start goal [] = Some NoPath"
| "iddfs_for_fuel (Suc fuel) graph start goal (depth # rest) =
     (case dls_fuel fuel graph goal start [start] depth of
        None \<Rightarrow> None
      | Some result \<Rightarrow>
          if truthy result then Some result
          else iddfs_for_fuel fuel graph start goal rest)"

definition iddfs_fuel :: "nat \<Rightarrow> graph \<Rightarrow> node \<Rightarrow> node \<Rightarrow> int \<Rightarrow> result option" where
  "iddfs_fuel fuel graph start goal max_depth =
     iddfs_for_fuel fuel graph start goal [0..<nat max_depth]"

section \<open>Floating-point arithmetic\<close>

text \<open>
  The coordinates and the distances are Python floats. Their arithmetic is not part of
  the program, so it is a parameter of the model: a type \<open>'f\<close> of the floats that occur
  and the operations the heuristic uses, which may round, overflow to infinity or
  underflow in any way. Squaring with \<^verbatim>\<open>** 2\<close> raises \<^verbatim>\<open>OverflowError\<close> when its result
  is out of range: \<open>fsquare\<close> then has no value. The coordinates are taken to be finite
  numbers, so no NaN arises and the floats that occur are linearly ordered, with the two
  zeros identified.
\<close>

record 'f float_ops =
  fzero :: 'f
  fsub :: "'f \<Rightarrow> 'f \<Rightarrow> 'f"
  fadd :: "'f \<Rightarrow> 'f \<Rightarrow> 'f"
  fsquare :: "'f \<Rightarrow> 'f option"
  froot :: "'f \<Rightarrow> 'f"

text \<open>
  Two facts of the arithmetic are part of the model: the difference of a finite float
  and itself is zero, and the square of zero is zero.
\<close>

definition float_sub :: "'f float_ops \<Rightarrow> 'f \<Rightarrow> 'f \<Rightarrow> 'f" where
  "float_sub ops x y = (if x = y then fzero ops else fsub ops x y)"

definition float_square :: "'f float_ops \<Rightarrow> 'f \<Rightarrow> error + 'f" where
  "float_square ops x =
     (if x = fzero ops then Inr (fzero ops)
      else case fsquare ops x of None \<Rightarrow> Inl OverflowError | Some y \<Rightarrow> Inr y)"

section \<open>The heuristic searches\<close>

text \<open>
  The nested function \<^verbatim>\<open>heuristic(city)\<close> of \<^verbatim>\<open>best_first_search\<close> and of
  \<^verbatim>\<open>a_star\<close> (the two are the same text): it looks up the city first, then the goal,
  then squares the difference of the latitudes, then that of the longitudes.
\<close>

definition heuristic :: "'f float_ops \<Rightarrow> 'f coords \<Rightarrow> node \<Rightarrow> node \<Rightarrow> error + 'f" where
  "heuristic ops cities goal city =
     (case cities city of
        None \<Rightarrow> Inl (KeyError city)
      | Some (lat1, lon1) \<Rightarrow>
          (case cities goal of
             None \<Rightarrow> Inl (KeyError goal)
           | Some (lat2, lon2) \<Rightarrow>
               (case float_square ops (float_sub ops lat1 lat2) of
                  Inl e \<Rightarrow> Inl e
                | Inr a \<Rightarrow>
                    (case float_square ops (float_sub ops lon1 lon2) of
                       Inl e \<Rightarrow> Inl e
                     | Inr b \<Rightarrow> Inr (froot ops (fadd ops a b))))))"

text \<open>
  The priority queue of the library module \<^verbatim>\<open>heapq\<close>, by its contract: a push adds an
  entry, a pop removes the least entry. The entries are tuples, which Python compares
  lexicographically; strings and lists are compared lexicographically too. The heap is
  never popped when empty.
\<close>

definition heappush :: "'a list \<Rightarrow> 'a \<Rightarrow> 'a list" where
  "heappush heap item = heap @ [item]"

definition heappop :: "('a::linorder) list \<Rightarrow> 'a \<times> 'a list" where
  "heappop heap = (let least = Min (set heap) in (least, remove1 least heap))"

type_synonym 'f bf_entry = "'f \<times> node \<times> path"
type_synonym 'f as_entry = "'f \<times> node \<times> path \<times> 'f"

text \<open>The loop over the neighbours in \<^verbatim>\<open>best_first_search\<close>.\<close>

fun best_first_for ::
  "'f float_ops \<Rightarrow> 'f coords \<Rightarrow> node \<Rightarrow> path \<Rightarrow> 'f bf_entry list \<Rightarrow> node list
     \<Rightarrow> error + 'f bf_entry list" where
  "best_first_for ops cities goal path pq [] = Inr pq"
| "best_first_for ops cities goal path pq (neighbor # rest) =
     (case heuristic ops cities goal neighbor of
        Inl e \<Rightarrow> Inl e
      | Inr h \<Rightarrow>
          best_first_for ops cities goal path (heappush pq (h, neighbor, path @ [neighbor])) rest)"

partial_function (option) best_first_loop ::
  "('f::linorder) float_ops \<Rightarrow> graph \<Rightarrow> 'f coords \<Rightarrow> node \<Rightarrow> 'f bf_entry list \<Rightarrow> node set
     \<Rightarrow> (error + result) option" where
  "best_first_loop ops graph cities goal pq visited =
     (if pq = [] then Some (Inr NoPath)
      else case heappop pq of ((priority, current, path), pq1) \<Rightarrow>
        if current = goal then Some (Inr (Path path))
        else if current \<notin> visited then
          (case best_first_for ops cities goal path pq1 (graph_get graph current) of
             Inl e \<Rightarrow> Some (Inl e)
           | Inr pq2 \<Rightarrow> best_first_loop ops graph cities goal pq2 (insert current visited))
        else best_first_loop ops graph cities goal pq1 visited)"

definition best_first_search ::
  "('f::linorder) float_ops \<Rightarrow> graph \<Rightarrow> 'f coords \<Rightarrow> node \<Rightarrow> node \<Rightarrow> (error + result) option" where
  "best_first_search ops graph cities start goal =
     (case heuristic ops cities goal start of
        Inl e \<Rightarrow> Some (Inl e)
      | Inr h \<Rightarrow> best_first_loop ops graph cities goal [(h, start, [start])] {})"

text \<open>
  The loop over the neighbours in \<^verbatim>\<open>a_star\<close>; it updates the dictionary
  \<^verbatim>\<open>g_score\<close> and the heap \<^verbatim>\<open>open_set\<close>. The code calls the heuristic a second time
  when it pushes; the function has no effects, so the second call gives the value of
  the first.
\<close>

fun a_star_for ::
  "('f::linorder) float_ops \<Rightarrow> 'f coords \<Rightarrow> node \<Rightarrow> path \<Rightarrow> 'f \<Rightarrow> (node \<rightharpoonup> 'f) \<Rightarrow> 'f as_entry list
     \<Rightarrow> node list \<Rightarrow> error + ((node \<rightharpoonup> 'f) \<times> 'f as_entry list)" where
  "a_star_for ops cities goal path cost g_score open_set [] = Inr (g_score, open_set)"
| "a_star_for ops cities goal path cost g_score open_set (neighbor # rest) =
     (case heuristic ops cities goal neighbor of
        Inl e \<Rightarrow> Inl e
      | Inr h \<Rightarrow>
          (let new_cost = fadd ops cost h in
           if (case g_score neighbor of None \<Rightarrow> True | Some old \<Rightarrow> new_cost < old) then
             a_star_for ops cities goal path cost (g_score(neighbor \<mapsto> new_cost))
               (heappush open_set (fadd ops new_cost h, neighbor, path @ [neighbor], new_cost))
               rest
           else a_star_for ops cities goal path cost g_score open_set rest))"

partial_function (option) a_star_loop ::
  "('f::linorder) float_ops \<Rightarrow> graph \<Rightarrow> 'f coords \<Rightarrow> node \<Rightarrow> 'f as_entry list
     \<Rightarrow> (node \<rightharpoonup> 'f) \<Rightarrow> node set \<Rightarrow> (error + result) option" where
  "a_star_loop ops graph cities goal open_set g_score visited =
     (if open_set = [] then Some (Inr NoPath)
      else case heappop open_set of ((priority, current, path, cost), open1) \<Rightarrow>
        if current = goal then Some (Inr (Path path))
        else if current \<notin> visited then
          (case a_star_for ops cities goal path cost g_score open1 (graph_get graph current) of
             Inl e \<Rightarrow> Some (Inl e)
           | Inr (g_score2, open2) \<Rightarrow>
               a_star_loop ops graph cities goal open2 g_score2 (insert current visited))
        else a_star_loop ops graph cities goal open1 g_score visited)"

definition a_star ::
  "('f::linorder) float_ops \<Rightarrow> graph \<Rightarrow> 'f coords \<Rightarrow> node \<Rightarrow> node \<Rightarrow> (error + result) option" where
  "a_star ops graph cities start goal =
     a_star_loop ops graph cities goal [(fzero ops, start, [start], fzero ops)]
       [start \<mapsto> fzero ops] {}"

section \<open>The heuristic searches with a log of the evaluations\<close>

text \<open>
  The same two searches with one more variable, which the code does not have: the list
  of the cities on which \<^verbatim>\<open>heuristic\<close> has been called so far, in the order of the
  calls. A call is logged whether it returns or raises; the two calls that \<^verbatim>\<open>a_star\<close>
  makes on one neighbour are logged as one. The searches return the log with their
  outcome.
\<close>

fun best_first_for_log ::
  "'f float_ops \<Rightarrow> 'f coords \<Rightarrow> node \<Rightarrow> path \<Rightarrow> 'f bf_entry list \<Rightarrow> node list \<Rightarrow> node list
     \<Rightarrow> (error + 'f bf_entry list) \<times> node list" where
  "best_first_for_log ops cities goal path pq evals [] = (Inr pq, evals)"
| "best_first_for_log ops cities goal path pq evals (neighbor # rest) =
     (case heuristic ops cities goal neighbor of
        Inl e \<Rightarrow> (Inl e, evals @ [neighbor])
      | Inr h \<Rightarrow>
          best_first_for_log ops cities goal path (heappush pq (h, neighbor, path @ [neighbor]))
            (evals @ [neighbor]) rest)"

partial_function (option) best_first_loop_log ::
  "('f::linorder) float_ops \<Rightarrow> graph \<Rightarrow> 'f coords \<Rightarrow> node \<Rightarrow> 'f bf_entry list \<Rightarrow> node set
     \<Rightarrow> node list \<Rightarrow> ((error + result) \<times> node list) option" where
  "best_first_loop_log ops graph cities goal pq visited evals =
     (if pq = [] then Some (Inr NoPath, evals)
      else case heappop pq of ((priority, current, path), pq1) \<Rightarrow>
        if current = goal then Some (Inr (Path path), evals)
        else if current \<notin> visited then
          (case best_first_for_log ops cities goal path pq1 evals (graph_get graph current) of
             (Inl e, log1) \<Rightarrow> Some (Inl e, log1)
           | (Inr pq2, log1) \<Rightarrow>
               best_first_loop_log ops graph cities goal pq2 (insert current visited) log1)
        else best_first_loop_log ops graph cities goal pq1 visited evals)"

definition best_first_search_log ::
  "('f::linorder) float_ops \<Rightarrow> graph \<Rightarrow> 'f coords \<Rightarrow> node \<Rightarrow> node
     \<Rightarrow> ((error + result) \<times> node list) option" where
  "best_first_search_log ops graph cities start goal =
     (case heuristic ops cities goal start of
        Inl e \<Rightarrow> Some (Inl e, [start])
      | Inr h \<Rightarrow> best_first_loop_log ops graph cities goal [(h, start, [start])] {} [start])"

fun a_star_for_log ::
  "('f::linorder) float_ops \<Rightarrow> 'f coords \<Rightarrow> node \<Rightarrow> path \<Rightarrow> 'f \<Rightarrow> (node \<rightharpoonup> 'f) \<Rightarrow> 'f as_entry list
     \<Rightarrow> node list \<Rightarrow> node list \<Rightarrow> (error + ((node \<rightharpoonup> 'f) \<times> 'f as_entry list)) \<times> node list" where
  "a_star_for_log ops cities goal path cost g_score open_set evals [] =
     (Inr (g_score, open_set), evals)"
| "a_star_for_log ops cities goal path cost g_score open_set evals (neighbor # rest) =
     (case heuristic ops cities goal neighbor of
        Inl e \<Rightarrow> (Inl e, evals @ [neighbor])
      | Inr h \<Rightarrow>
          (let new_cost = fadd ops cost h in
           if (case g_score neighbor of None \<Rightarrow> True | Some old \<Rightarrow> new_cost < old) then
             a_star_for_log ops cities goal path cost (g_score(neighbor \<mapsto> new_cost))
               (heappush open_set (fadd ops new_cost h, neighbor, path @ [neighbor], new_cost))
               (evals @ [neighbor]) rest
           else a_star_for_log ops cities goal path cost g_score open_set (evals @ [neighbor]) rest))"

partial_function (option) a_star_loop_log ::
  "('f::linorder) float_ops \<Rightarrow> graph \<Rightarrow> 'f coords \<Rightarrow> node \<Rightarrow> 'f as_entry list
     \<Rightarrow> (node \<rightharpoonup> 'f) \<Rightarrow> node set \<Rightarrow> node list \<Rightarrow> ((error + result) \<times> node list) option" where
  "a_star_loop_log ops graph cities goal open_set g_score visited evals =
     (if open_set = [] then Some (Inr NoPath, evals)
      else case heappop open_set of ((priority, current, path, cost), open1) \<Rightarrow>
        if current = goal then Some (Inr (Path path), evals)
        else if current \<notin> visited then
          (case a_star_for_log ops cities goal path cost g_score open1 evals
                  (graph_get graph current) of
             (Inl e, log1) \<Rightarrow> Some (Inl e, log1)
           | (Inr (g_score2, open2), log1) \<Rightarrow>
               a_star_loop_log ops graph cities goal open2 g_score2 (insert current visited) log1)
        else a_star_loop_log ops graph cities goal open1 g_score visited evals)"

definition a_star_log ::
  "('f::linorder) float_ops \<Rightarrow> graph \<Rightarrow> 'f coords \<Rightarrow> node \<Rightarrow> node
     \<Rightarrow> ((error + result) \<times> node list) option" where
  "a_star_log ops graph cities start goal =
     a_star_loop_log ops graph cities goal [(fzero ops, start, [start], fzero ops)]
       [start \<mapsto> fzero ops] {} []"

section \<open>Predicates of the specification, invariants and example graphs\<close>

text \<open>
  The invariant of the graph store: whenever \<open>b\<close> is listed as a neighbour of \<open>a\<close>,
  \<open>a\<close> is listed as a neighbour of \<open>b\<close>.
\<close>

definition symmetric :: "graph \<Rightarrow> bool" where
  "symmetric graph = (\<forall>a b. b \<in> set (graph_get graph a) \<longrightarrow> a \<in> set (graph_get graph b))"

text \<open>
  A walk in the graph: a non-empty list of cities in which each city is followed by one
  of its neighbours. A walk of \<open>n\<close> cities has \<open>n - 1\<close> edges.
\<close>

fun walk :: "graph \<Rightarrow> path \<Rightarrow> bool" where
  "walk graph [] = False"
| "walk graph [a] = True"
| "walk graph (a # b # rest) = (b \<in> set (graph_get graph a) \<and> walk graph (b # rest))"

text \<open>The number of edges of a path: one less than the number of its cities.\<close>

definition edge_count :: "path \<Rightarrow> nat" where
  "edge_count p = length p - 1"

text \<open>An example graph: the line A - B - C, as \<open>load_adjacencies\<close> builds it.\<close>

definition line3 :: graph where
  "line3 = load_adjacencies [[''A'', ''B''], [''B'', ''C'']]"

text \<open>
  What a returned path has to be: a walk from the start to the goal in which no city
  occurs twice.
\<close>

definition simple_path :: "graph \<Rightarrow> node \<Rightarrow> node \<Rightarrow> path \<Rightarrow> bool" where
  "simple_path graph start goal p = (walk graph p \<and> hd p = start \<and> last p = goal \<and> distinct p)"

text \<open>
  The invariant of the frontier of the four loops with a visited set: an entry for the
  city \<open>c\<close> carries a walk from the start to \<open>c\<close>, and the cities before \<open>c\<close> on it are
  distinct and have all been expanded.
\<close>

definition entry_ok :: "graph \<Rightarrow> node \<Rightarrow> node set \<Rightarrow> node \<Rightarrow> path \<Rightarrow> bool" where
  "entry_ok graph start visited c p =
     (walk graph p \<and> hd p = start \<and> last p = c \<and> distinct (butlast p) \<and> set (butlast p) \<subseteq> visited)"

text \<open>
  The heuristic of a city can be computed: the city and the goal have coordinates and
  no square overflows.
\<close>

definition heuristic_defined :: "'f float_ops \<Rightarrow> 'f coords \<Rightarrow> node \<Rightarrow> node \<Rightarrow> bool" where
  "heuristic_defined ops cities goal city =
     (case heuristic ops cities goal city of Inl e \<Rightarrow> False | Inr h \<Rightarrow> True)"

text \<open>
  The precondition of the heuristic searches: the heuristic can be computed for the
  start and for every city that a walk from the start reaches.
\<close>

definition reachable_defined ::
  "'f float_ops \<Rightarrow> graph \<Rightarrow> 'f coords \<Rightarrow> node \<Rightarrow> node \<Rightarrow> bool" where
  "reachable_defined ops graph cities start goal =
     (\<forall>q. walk graph q \<and> hd q = start \<longrightarrow> heuristic_defined ops cities goal (last q))"

text \<open>
  The invariant of the log of the evaluations, between the log \<open>evals\<close> at some point
  of a run and the log \<open>evals'\<close> at its end with the outcome \<open>r\<close>: the log only grows; an
  evaluation that was logged in between and raised is the outcome of the run; and an
  exception that is the outcome was raised by a logged evaluation.
\<close>

definition log_ok ::
  "'f float_ops \<Rightarrow> 'f coords \<Rightarrow> node \<Rightarrow> node list \<Rightarrow> node list \<Rightarrow> error + 'a \<Rightarrow> bool" where
  "log_ok ops cities goal evals evals' r =
     (set evals \<subseteq> set evals' \<and>
      (\<forall>c \<in> set evals'. c \<in> set evals \<or> (\<forall>e. heuristic ops cities goal c = Inl e \<longrightarrow> r = Inl e)) \<and>
      (\<forall>e. r = Inl e \<longrightarrow> (\<exists>c \<in> set evals'. heuristic ops cities goal c = Inl e)))"

text \<open>
  An arithmetic for the examples: the real numbers with their exact operations, except
  that a square overflows where the square of a binary64 float does, at
  \<open>2 ^ 1024 - 2 ^ 970\<close>.
\<close>

definition binary64_overflow :: real where
  "binary64_overflow = 2 ^ 1024 - 2 ^ 970"

definition real_ops :: "real float_ops" where
  "real_ops =
     \<lparr>fzero = 0,
      fsub = (\<lambda>x y. x - y),
      fadd = (\<lambda>x y. x + y),
      fsquare = (\<lambda>x. if binary64_overflow \<le> x * x then None else Some (x * x)),
      froot = sqrt\<rparr>"

text \<open>
  Coordinates for the line A - B - C, on one axis; the same without the city B and with
  a city Z; with all four cities; with the city C very far away; and with a city Z that
  is very far away.
\<close>

definition cities3 :: "real coords" where
  "cities3 = [''A'' \<mapsto> (0, 0), ''B'' \<mapsto> (1, 0), ''C'' \<mapsto> (2, 0)]"

definition cities_no_B :: "real coords" where
  "cities_no_B = [''A'' \<mapsto> (0, 0), ''C'' \<mapsto> (2, 0), ''Z'' \<mapsto> (3, 0)]"

definition cities_near :: "real coords" where
  "cities_near = [''A'' \<mapsto> (0, 0), ''B'' \<mapsto> (1, 0), ''C'' \<mapsto> (2, 0), ''Z'' \<mapsto> (3, 0)]"

definition cities_wide :: "real coords" where
  "cities_wide = [''A'' \<mapsto> (0, 0), ''B'' \<mapsto> (1, 0), ''C'' \<mapsto> (2 ^ 600, 0)]"

definition cities_far :: "real coords" where
  "cities_far = [''A'' \<mapsto> (0, 0), ''B'' \<mapsto> (1, 0), ''C'' \<mapsto> (2, 0), ''Z'' \<mapsto> (2 ^ 600, 0)]"

text \<open>
  The graph of the scenario of the specification: the edges A-B, B-C, A-D, D-C, which
  form the cycle A-B-C-D-A; B and D lie at the same place between A and C.
\<close>

definition square :: graph where
  "square = load_adjacencies [[''A'', ''B''], [''B'', ''C''], [''A'', ''D''], [''D'', ''C'']]"

definition cities4 :: "real coords" where
  "cities4 = [''A'' \<mapsto> (0, 0), ''B'' \<mapsto> (1, 0), ''C'' \<mapsto> (2, 0), ''D'' \<mapsto> (1, 0)]"

text \<open>
  A graph that is not symmetric: B is listed as a neighbour of A and has no entry of its
  own.
\<close>

definition one_way :: graph where
  "one_way = [''A'' \<mapsto> [''B'']]"

text \<open>
  A graph of two parts, A - B and X - Y, with coordinates for the first part only.
\<close>

definition two_parts :: graph where
  "two_parts = load_adjacencies [[''A'', ''B''], [''X'', ''Y'']]"

definition cities_AB :: "real coords" where
  "cities_AB = [''A'' \<mapsto> (0, 0), ''B'' \<mapsto> (1, 0)]"



text \<open>
  The invariant of the queue of \<open>bfs\<close>, for the level \<open>L\<close> (a number of cities): the
  queue holds walks from the start of \<open>L\<close> cities followed by walks of \<open>L + 1\<close> cities;
  every city reached by a shorter walk has been expanded; every city reached by a walk of
  \<open>L\<close> cities has been expanded or waits in the queue with a walk of \<open>L\<close> cities; and
  every neighbour of an expanded city has been expanded or waits in the queue with a walk
  at most one city longer than any walk to the expanded city.
\<close>

definition frontier_ok :: "graph \<Rightarrow> node \<Rightarrow> nat \<Rightarrow> (node \<times> path) list \<Rightarrow> bool" where
  "frontier_ok graph start L queue =
     ((\<forall>c p. (c, p) \<in> set queue \<longrightarrow>
         walk graph p \<and> hd p = start \<and> last p = c \<and> (length p = L \<or> length p = Suc L)) \<and>
      sorted (map (\<lambda>e. length (snd e)) queue))"

definition shorter_visited :: "graph \<Rightarrow> node \<Rightarrow> nat \<Rightarrow> node set \<Rightarrow> bool" where
  "shorter_visited graph start L visited =
     (\<forall>q. walk graph q \<and> hd q = start \<and> length q < L \<longrightarrow> last q \<in> visited)"

definition level_covered :: "graph \<Rightarrow> node \<Rightarrow> nat \<Rightarrow> (node \<times> path) list \<Rightarrow> node set \<Rightarrow> bool" where
  "level_covered graph start L queue visited =
     (\<forall>q. walk graph q \<and> hd q = start \<and> length q = L \<longrightarrow>
        last q \<in> visited \<or> (\<exists>p. (last q, p) \<in> set queue \<and> length p = L))"

definition edges_covered :: "graph \<Rightarrow> node \<Rightarrow> (node \<times> path) list \<Rightarrow> node set \<Rightarrow> bool" where
  "edges_covered graph start queue visited =
     (\<forall>v x q. v \<in> visited \<and> x \<in> set (graph_get graph v) \<and>
        walk graph q \<and> hd q = start \<and> last q = v \<longrightarrow>
        x \<in> visited \<or> (\<exists>p. (x, p) \<in> set queue \<and> length p \<le> Suc (length q)))"

definition level_inv ::
  "graph \<Rightarrow> node \<Rightarrow> node \<Rightarrow> nat \<Rightarrow> (node \<times> path) list \<Rightarrow> node set \<Rightarrow> bool" where
  "level_inv graph start goal L queue visited =
     (1 \<le> L \<and> goal \<notin> visited \<and> frontier_ok graph start L queue \<and>
      shorter_visited graph start L visited \<and> level_covered graph start L queue visited \<and>
      edges_covered graph start queue visited)"

text \<open>
  An example graph with two routes from A to C: A-D-E-C, whose first edge is listed
  first, and the shorter A-B-C.
\<close>

definition detour :: graph where
  "detour = load_adjacencies
     [[''A'', ''D''], [''D'', ''E''], [''E'', ''C''], [''A'', ''B''], [''B'', ''C'']]"

section \<open>The loaded graph is symmetric\<close>

lemma graph_get_setdefault_append:
  "graph_get (setdefault_append g k v) x = (if x = k then graph_get g k @ [v] else graph_get g x)"
  by (simp add: setdefault_append_def graph_get_def)

lemma graph_get_empty: "graph_get Map.empty x = []"
  by (simp add: graph_get_def)

lemma in_setdefault_append:
  "b \<in> set (graph_get (setdefault_append g k v) a) \<longleftrightarrow> b \<in> set (graph_get g a) \<or> (a = k \<and> b = v)"
  by (auto simp: graph_get_setdefault_append)

lemma in_load_row_pair:
  "b \<in> set (graph_get (load_row g [c, d]) a) \<longleftrightarrow>
     b \<in> set (graph_get g a) \<or> (a = c \<and> b = d) \<or> (a = d \<and> b = c)"
  unfolding load_row.simps in_setdefault_append by blast

lemma load_row_cases: "(\<exists>c d. row = [c, d]) \<or> load_row g row = g"
  by (cases "(g, row)" rule: load_row.cases) simp_all

lemma symmetric_load_row: "symmetric g \<Longrightarrow> symmetric (load_row g row)"
proof -
  assume s: "symmetric g"
  from load_row_cases [of row g] show ?thesis
  proof
    assume "\<exists>c d. row = [c, d]"
    then obtain c d where r: "row = [c, d]" by blast
    show ?thesis using s unfolding r symmetric_def in_load_row_pair by blast
  next
    assume "load_row g row = g"
    with s show ?thesis by simp
  qed
qed

lemma symmetric_foldl_load_row: "symmetric g \<Longrightarrow> symmetric (foldl load_row g rows)"
  by (induction rows arbitrary: g) (simp_all add: symmetric_load_row)

lemma symmetric_empty: "symmetric Map.empty"
  by (simp add: symmetric_def graph_get_empty)

lemma duplicate_load_row:
  assumes "b \<in> set (graph_get g a)"
  shows "\<not> distinct (graph_get (load_row g [a, b]) a)"
proof (cases "a = b")
  case True
  then show ?thesis by (simp add: graph_get_setdefault_append)
next
  case False
  with assms show ?thesis by (simp add: graph_get_setdefault_append)
qed

lemma foldl_load_row_snoc: "foldl load_row g (rows @ [row]) = load_row (foldl load_row g rows) row"
  by simp

lemma in_load_row_mono:
  assumes "b \<in> set (graph_get g a)"
  shows "b \<in> set (graph_get (load_row g row) a)"
proof -
  from load_row_cases [of row g] show ?thesis
  proof
    assume "\<exists>c d. row = [c, d]"
    then obtain c d where r: "row = [c, d]" by blast
    show ?thesis using assms unfolding r in_load_row_pair by blast
  next
    assume "load_row g row = g"
    with assms show ?thesis by simp
  qed
qed

lemma in_foldl_load_row_mono:
  "b \<in> set (graph_get g a) \<Longrightarrow> b \<in> set (graph_get (foldl load_row g rows) a)"
  by (induction rows arbitrary: g) (simp_all add: in_load_row_mono)

lemma in_foldl_load_row:
  "[a, b] \<in> set rows \<or> [b, a] \<in> set rows \<Longrightarrow> b \<in> set (graph_get (foldl load_row g rows) a)"
proof (induction rows arbitrary: g)
  case Nil
  then show ?case by simp
next
  case (Cons row rows)
  show ?case
  proof (cases "row = [a, b] \<or> row = [b, a]")
    case True
    then have "b \<in> set (graph_get (load_row g row) a)"
      using in_load_row_pair [of b g a b a] in_load_row_pair [of b g b a a] by blast
    then show ?thesis
      using in_foldl_load_row_mono [of b "load_row g row" a rows] by simp
  next
    case False
    with Cons.prems have "[a, b] \<in> set rows \<or> [b, a] \<in> set rows" by auto
    from Cons.IH [OF this, of "load_row g row"] show ?thesis by simp
  qed
qed

text \<open>
  Claim C9. Whatever rows the file holds (rows that do not have two tokens are skipped),
  the graph that \<open>load_adjacencies\<close> builds is symmetric: if \<open>b\<close> is in the neighbour
  list of \<open>a\<close> then \<open>a\<close> is in the neighbour list of \<open>b\<close>. The lists are not
  deduplicated: a row that declares an edge again leaves a neighbour list with a
  duplicate.
\<close>

theorem load_adjacencies_symmetric:
  "symmetric (load_adjacencies rows) \<and>
   ([a, b] \<in> set rows \<or> [b, a] \<in> set rows \<longrightarrow>
      \<not> distinct (graph_get (load_adjacencies (rows @ [[a, b]])) a))"
proof (intro conjI impI)
  show "symmetric (load_adjacencies rows)"
    unfolding load_adjacencies_def by (rule symmetric_foldl_load_row [OF symmetric_empty])
next
  assume "[a, b] \<in> set rows \<or> [b, a] \<in> set rows"
  then have "b \<in> set (graph_get (foldl load_row Map.empty rows) a)"
    by (rule in_foldl_load_row)
  then have "\<not> distinct (graph_get (load_row (foldl load_row Map.empty rows) [a, b]) a)"
    by (rule duplicate_load_row)
  then show "\<not> distinct (graph_get (load_adjacencies (rows @ [[a, b]])) a)"
    unfolding load_adjacencies_def foldl_load_row_snoc .
qed

lemma load_example:
  "graph_get (load_adjacencies [[''A'', ''B''], [''B''], [''A'', ''B'']]) ''A'' = [''B'', ''B'']"
  "graph_get (load_adjacencies [[''A'', ''B''], [''B''], [''A'', ''B'']]) ''B'' = [''A'', ''A'']"
  by (simp_all add: load_adjacencies_def graph_get_setdefault_append graph_get_empty)

theorem load_adjacencies_symmetric_witness:
  "symmetric (load_adjacencies [[''A'', ''B''], [''B'']]) \<and>
   [''A'', ''B''] \<in> set [[''A'', ''B''], [''B'']] \<and>
   \<not> distinct (graph_get (load_adjacencies ([[''A'', ''B''], [''B'']] @ [[''A'', ''B'']])) ''A'') \<and>
   graph_get (load_adjacencies ([[''A'', ''B''], [''B'']] @ [[''A'', ''B'']])) ''A'' = [''B'', ''B'']"
  using load_adjacencies_symmetric [of "[[''A'', ''B''], [''B'']]" "''A''" "''B''"]
  by (simp add: load_adjacencies_def graph_get_setdefault_append graph_get_empty)

section \<open>Walks\<close>

lemma walk_not_Nil: "walk g p \<Longrightarrow> p \<noteq> []"
  by (cases p) simp_all

lemma walk_snoc:
  "walk g (p @ [x]) \<longleftrightarrow> p = [] \<or> (walk g p \<and> x \<in> set (graph_get g (last p)))"
proof (induction g p rule: walk.induct)
  case (1 graph)
  then show ?case by simp
next
  case (2 graph a)
  then show ?case by simp
next
  case (3 graph a b rest)
  then show ?case by auto
qed

lemma walk_endpoints_differ:
  assumes "walk g p" "hd p \<noteq> last p"
  shows "0 < edge_count p"
proof (cases p)
  case Nil
  with assms show ?thesis by simp
next
  case (Cons a q)
  with assms show ?thesis by (cases q) (simp_all add: edge_count_def)
qed

lemma walk_not_adjacent:
  assumes "walk g p" "hd p \<noteq> last p" "last p \<notin> set (graph_get g (hd p))"
  shows "1 < edge_count p"
proof (cases p)
  case Nil
  with assms show ?thesis by simp
next
  case (Cons a q)
  note p = Cons
  show ?thesis
  proof (cases q)
    case Nil
    with p assms show ?thesis by simp
  next
    case (Cons b r)
    with p assms show ?thesis by (cases r) (simp_all add: edge_count_def)
  qed
qed

section \<open>Depth-limited search\<close>

lemma dls_sound:
  "walk g path \<Longrightarrow> last path = node \<Longrightarrow> dls g goal node path d = Path p \<Longrightarrow>
     walk g p \<and> last p = goal \<and> hd p = hd path \<and> length p < length path + d \<and>
     (distinct path \<longrightarrow> distinct p)"
  "walk g path \<Longrightarrow> set nbrs \<subseteq> set (graph_get g (last path)) \<Longrightarrow>
   dls_for g goal nbrs path d = Path p \<Longrightarrow>
     walk g p \<and> last p = goal \<and> hd p = hd path \<and> length p \<le> length path + d \<and>
     (distinct path \<longrightarrow> distinct p)"
proof (induction g goal node path d and g goal nbrs path d arbitrary: p and p
    rule: dls_dls_for.induct)
  case (1 graph goal node path)
  then show ?case by simp
next
  case (2 graph goal node path d)
  show ?case
  proof (cases "node = goal")
    case True
    with "2.prems" show ?thesis by simp
  next
    case False
    with "2.prems" have r: "dls_for graph goal (graph_get graph node) path d = Path p" by simp
    from "2.IH" [OF False "2.prems"(1) _ r] "2.prems"(2) show ?thesis by simp
  qed
next
  case (3 graph goal path d)
  then show ?case by simp
next
  case (4 graph goal neighbor rest path d)
  from "4.prems" have rest_sub: "set rest \<subseteq> set (graph_get graph (last path))"
    and nb: "neighbor \<in> set (graph_get graph (last path))" by simp_all
  have ne: "path \<noteq> []" using "4.prems"(1) by (rule walk_not_Nil)
  show ?case
  proof (cases "neighbor \<notin> set path")
    case fresh: True
    let ?r = "dls graph goal neighbor (path @ [neighbor]) d"
    show ?thesis
    proof (cases "truthy ?r")
      case True
      with fresh "4.prems"(3) have r: "?r = Path p" by simp
      have w: "walk graph (path @ [neighbor])"
        using "4.prems"(1) nb by (simp add: walk_snoc)
      from "4.IH"(1) [OF fresh w _ r] fresh ne show ?thesis by simp
    next
      case False
      with fresh "4.prems"(3) have r: "dls_for graph goal rest path d = Path p" by simp
      from "4.IH"(2) [OF fresh refl False "4.prems"(1) rest_sub r] show ?thesis .
    qed
  next
    case False
    with "4.prems"(3) have r: "dls_for graph goal rest path d = Path p" by simp
    from "4.IH"(3) [OF False "4.prems"(1) rest_sub r] show ?thesis .
  qed
qed

lemma dls_start:
  assumes "dls g goal start [start] d = Path p"
  shows "walk g p \<and> hd p = start \<and> last p = goal \<and> distinct p \<and> edge_count p < d \<and> length p \<le> d"
proof -
  from dls_sound(1) [of g "[start]" start goal d p] assms
  have r: "walk g p" "last p = goal" "hd p = start" "length p < Suc d" "distinct p"
    by simp_all
  from r(1) have "p \<noteq> []" by (rule walk_not_Nil)
  then have pos: "0 < length p" by simp
  from pos r(4) have "edge_count p < d" unfolding edge_count_def by arith
  moreover from r(4) have "length p \<le> d" by arith
  ultimately show ?thesis using r by blast
qed

lemma iddfs_for_result:
  "iddfs_for g start goal ds = Path p \<Longrightarrow> \<exists>d \<in> set ds. dls g goal start [start] d = Path p"
proof (induction ds)
  case Nil
  then show ?case by simp
next
  case (Cons d ds)
  show ?case
  proof (cases "truthy (dls g goal start [start] d)")
    case True
    with Cons.prems show ?thesis by simp
  next
    case False
    with Cons show ?thesis by simp
  qed
qed

lemma iddfs_result:
  assumes "iddfs g start goal max_depth = Path p"
  shows "\<exists>d. int d < max_depth \<and> dls g goal start [start] d = Path p"
proof -
  from assms obtain d where "d \<in> set [0..<nat max_depth]" "dls g goal start [start] d = Path p"
    unfolding iddfs_def using iddfs_for_result by blast
  then have "int d < max_depth \<and> dls g goal start [start] d = Path p" by simp
  then show ?thesis ..
qed

lemma iddfs_sound:
  assumes "iddfs g start goal max_depth = Path p"
  shows "walk g p \<and> hd p = start \<and> last p = goal \<and> distinct p \<and> int (edge_count p) \<le> max_depth - 2"
proof -
  from iddfs_result [OF assms] obtain d where d: "int d < max_depth"
    and r: "dls g goal start [start] d = Path p" by blast
  from dls_start [OF r] d show ?thesis by auto
qed

text \<open>
  Claim C5. When every path from the start to the goal in the graph has more than
  \<open>max_depth\<close> edges, \<open>iddfs\<close> with that \<open>max_depth\<close> returns \<^verbatim>\<open>None\<close>, whether
  or not a longer path exists. (The paths quantified over may repeat cities; the
  statement does not need the start to differ from the goal.)
\<close>

theorem iddfs_beyond_max_depth:
  assumes "\<forall>p. walk graph p \<and> hd p = start \<and> last p = goal \<longrightarrow> max_depth < int (edge_count p)"
  shows "iddfs graph start goal max_depth = NoPath"
proof (cases "iddfs graph start goal max_depth")
  case (Path p)
  from iddfs_sound [OF Path] assms show ?thesis by force
next
  case NoPath
  then show ?thesis .
qed

text \<open>
  Claim C10. A depth-limited search at depth 0 gives up before it looks at the goal, so
  a search with limit \<open>depth\<close> only returns paths of fewer than \<open>depth\<close> edges; the
  outer loop of \<open>iddfs\<close> only tries the limits below \<open>max_depth\<close>. So when every
  path from the start to the goal has more than \<open>max_depth - 2\<close> edges, \<open>iddfs\<close>
  returns \<^verbatim>\<open>None\<close>.
\<close>

theorem iddfs_depth_off_by_two:
  "dls graph goal goal path 0 = NoPath \<and>
   (dls graph goal start [start] depth = Path p \<longrightarrow> edge_count p < depth) \<and>
   (iddfs graph start goal max_depth = Path p \<longrightarrow>
      (\<exists>d. int d < max_depth \<and> dls graph goal start [start] d = Path p)) \<and>
   ((\<forall>q. walk graph q \<and> hd q = start \<and> last q = goal \<longrightarrow> max_depth - 2 < int (edge_count q))
      \<longrightarrow> iddfs graph start goal max_depth = NoPath)"
proof (intro conjI impI)
  show "dls graph goal goal path 0 = NoPath" by simp
next
  assume "dls graph goal start [start] depth = Path p"
  from dls_start [OF this] show "edge_count p < depth" by simp
next
  assume "iddfs graph start goal max_depth = Path p"
  then show "\<exists>d. int d < max_depth \<and> dls graph goal start [start] d = Path p"
    by (rule iddfs_result)
next
  assume h: "\<forall>q. walk graph q \<and> hd q = start \<and> last q = goal \<longrightarrow> max_depth - 2 < int (edge_count q)"
  show "iddfs graph start goal max_depth = NoPath"
  proof (cases "iddfs graph start goal max_depth")
    case (Path r)
    from iddfs_sound [OF Path] h show ?thesis by force
  next
    case NoPath
    then show ?thesis .
  qed
qed

section \<open>Iterative deepening on the line A - B - C\<close>

lemma line3_get:
  "graph_get line3 ''A'' = [''B'']"
  "graph_get line3 ''B'' = [''A'', ''C'']"
  "graph_get line3 ''C'' = [''B'']"
  by (simp_all add: line3_def load_adjacencies_def graph_get_setdefault_append graph_get_empty)

lemma line3_far:
  "\<forall>p. walk line3 p \<and> hd p = ''A'' \<and> last p = ''C'' \<longrightarrow> 1 < int (edge_count p)"
proof (intro allI impI)
  fix p assume "walk line3 p \<and> hd p = ''A'' \<and> last p = ''C''"
  then have "1 < edge_count p"
    using walk_not_adjacent [of line3 p] by (simp add: line3_get)
  then show "1 < int (edge_count p)" by simp
qed

theorem iddfs_beyond_max_depth_witness:
  "walk line3 [''A'', ''B'', ''C''] \<and> iddfs line3 ''A'' ''C'' 1 = NoPath"
  using iddfs_beyond_max_depth [of line3 "''A''" "''C''" 1] line3_far
  by (simp add: line3_get)

theorem iddfs_depth_off_by_two_witness:
  "walk line3 [''A'', ''B'', ''C''] \<and> edge_count [''A'', ''B'', ''C''] = 2 \<and>
   iddfs line3 ''A'' ''C'' 3 = NoPath \<and> iddfs line3 ''A'' ''C'' 4 = Path [''A'', ''B'', ''C'']"
proof -
  have far: "\<forall>q. walk line3 q \<and> hd q = ''A'' \<and> last q = ''C'' \<longrightarrow> 3 - 2 < int (edge_count q)"
    using line3_far by simp
  have "iddfs line3 ''A'' ''C'' 3 = NoPath"
    using iddfs_depth_off_by_two [of line3 "''C''" "[]" "''A''" 0 "[]" 3] far by blast
  moreover have "iddfs line3 ''A'' ''C'' 4 = Path [''A'', ''B'', ''C'']"
    by (simp add: iddfs_def upt_conv_Cons line3_get eval_nat_numeral)
  ultimately show ?thesis by (simp add: line3_get edge_count_def)
qed

section \<open>The invariant of the frontier\<close>

lemma entry_ok_init: "entry_ok g start {} start [start]"
  by (simp add: entry_ok_def)

lemma entry_ok_mono: "entry_ok g start V c p \<Longrightarrow> V \<subseteq> V' \<Longrightarrow> entry_ok g start V' c p"
  unfolding entry_ok_def by blast

lemma distinct_butlast_last:
  assumes "p \<noteq> []" "distinct (butlast p)" "last p \<notin> set (butlast p)"
  shows "distinct p"
proof -
  from assms(1) have "p = butlast p @ [last p]" by simp
  then have "distinct p = distinct (butlast p @ [last p])" by simp
  with assms(2,3) show ?thesis by simp
qed

lemma set_butlast_last:
  assumes "p \<noteq> []"
  shows "set p = insert (last p) (set (butlast p))"
proof -
  from assms have "p = butlast p @ [last p]" by simp
  then have "set p = set (butlast p @ [last p])" by simp
  then show ?thesis by simp
qed

lemma entry_ok_goal:
  assumes "entry_ok g start V goal p" "goal \<notin> V"
  shows "simple_path g start goal p"
proof -
  from assms(1) have w: "walk g p" and h: "hd p = start" and l: "last p = goal"
    and d: "distinct (butlast p)" and s: "set (butlast p) \<subseteq> V"
    unfolding entry_ok_def by blast+
  from w have ne: "p \<noteq> []" by (rule walk_not_Nil)
  from s assms(2) l have "last p \<notin> set (butlast p)" by blast
  with ne d have "distinct p" by (rule distinct_butlast_last)
  with w h l show ?thesis unfolding simple_path_def by blast
qed

lemma entry_ok_extend:
  assumes "entry_ok g start V c p" "c \<notin> V" "n \<in> set (graph_get g c)"
  shows "entry_ok g start (insert c V) n (p @ [n])"
proof -
  from assms(1) have w: "walk g p" and h: "hd p = start" and l: "last p = c"
    and d: "distinct (butlast p)" and s: "set (butlast p) \<subseteq> V"
    unfolding entry_ok_def by blast+
  from w have ne: "p \<noteq> []" by (rule walk_not_Nil)
  from s assms(2) l have "last p \<notin> set (butlast p)" by blast
  with ne d have dp: "distinct p" by (rule distinct_butlast_last)
  from set_butlast_last [OF ne] s l have sp: "set p \<subseteq> insert c V" by blast
  from w assms(3) l have "walk g (p @ [n])" by (simp add: walk_snoc)
  moreover from ne h have "hd (p @ [n]) = start" by simp
  ultimately show ?thesis using dp sp unfolding entry_ok_def by simp
qed

lemma entry_ok_insert: "entry_ok g start V c' p' \<Longrightarrow> entry_ok g start (insert c V) c' p'"
  by (rule entry_ok_mono) auto

lemma entries_expand:
  assumes "\<forall>(c', p') \<in> set rest. entry_ok g start V c' p'" "entry_ok g start V c p" "c \<notin> V"
  shows "\<forall>(c', p') \<in> set (rest @ map (\<lambda>n. (n, p @ [n])) (graph_get g c)).
           entry_ok g start (insert c V) c' p'"
proof (intro ballI)
  fix e assume "e \<in> set (rest @ map (\<lambda>n. (n, p @ [n])) (graph_get g c))"
  then consider "e \<in> set rest" | n where "n \<in> set (graph_get g c)" "e = (n, p @ [n])"
    by auto
  then show "case e of (c', p') \<Rightarrow> entry_ok g start (insert c V) c' p'"
  proof cases
    case 1
    with assms(1) have "case e of (c', p') \<Rightarrow> entry_ok g start V c' p'" by blast
    then show ?thesis by (cases e) (simp add: entry_ok_insert)
  next
    case 2
    with entry_ok_extend [OF assms(2,3)] show ?thesis by simp
  qed
qed

section \<open>The measure of the loops\<close>

lemma graph_get_absent: "c \<notin> dom g \<Longrightarrow> graph_get g c = []"
  by (auto simp: graph_get_def split: option.splits)

lemma card_unvisited_le:
  assumes "finite (dom g)"
  shows "card (dom g - insert c V) \<le> card (dom g - V)"
  using assms by (intro card_mono) auto

lemma card_unvisited_less:
  assumes "finite (dom g)" "c \<in> dom g" "c \<notin> V"
  shows "card (dom g - insert c V) < card (dom g - V)"
  using assms by (intro psubset_card_mono) auto

text \<open>The measure decreases when a city that is not yet visited is expanded.\<close>

lemma expand_measure:
  assumes "finite (dom g)" "c \<notin> V" "length rest < n"
  shows "(card (dom g - insert c V), length (rest @ map f (graph_get g c))) < (card (dom g - V), n)"
proof (cases "c \<in> dom g")
  case True
  from card_unvisited_less [OF assms(1) True assms(2)] show ?thesis by simp
next
  case False
  then have "graph_get g c = []" by (rule graph_get_absent)
  with card_unvisited_le [OF assms(1), of c V] assms(3) show ?thesis by simp
qed

section \<open>Breadth-first search: the loop ends and its path is simple\<close>

lemma bfs_loop_total:
  assumes fin: "finite (dom g)"
  shows "goal \<notin> V \<Longrightarrow> \<forall>(c, p) \<in> set Q. entry_ok g start V c p \<Longrightarrow>
    \<exists>r. bfs_loop g goal Q V = Some r \<and> (\<forall>p. r = Path p \<longrightarrow> simple_path g start goal p)"
proof (induction "(card (dom g - V), length Q)" arbitrary: Q V rule: less_induct)
  case less
  show ?case
  proof (cases Q)
    case Nil
    then show ?thesis by (subst bfs_loop.simps) simp
  next
    case (Cons e rest)
    obtain c p where e: "e = (c, p)" by (cases e)
    note Q = Cons [unfolded e]
    from less.prems(2) Q have ok: "entry_ok g start V c p"
      and ok_rest: "\<forall>(c, p) \<in> set rest. entry_ok g start V c p" by simp_all
    show ?thesis
    proof (cases "c = goal")
      case True
      then have "bfs_loop g goal Q V = Some (Path p)"
        unfolding Q by (subst bfs_loop.simps) simp
      moreover from ok True less.prems(1) have "simple_path g start goal p"
        using entry_ok_goal by blast
      ultimately show ?thesis by simp
    next
      case False
      show ?thesis
      proof (cases "c \<in> V")
        case True
        with False have eq: "bfs_loop g goal Q V = bfs_loop g goal rest V"
          unfolding Q by (subst bfs_loop.simps) simp
        have "(card (dom g - V), length rest) < (card (dom g - V), length Q)"
          unfolding Q by simp
        from less.hyps [OF this less.prems(1) ok_rest] eq show ?thesis by simp
      next
        case fresh: False
        let ?Q = "rest @ map (\<lambda>neighbor. (neighbor, p @ [neighbor])) (graph_get g c)"
        from False fresh have eq: "bfs_loop g goal Q V = bfs_loop g goal ?Q (insert c V)"
          unfolding Q by (subst bfs_loop.simps) simp
        have m: "(card (dom g - insert c V), length ?Q) < (card (dom g - V), length Q)"
          unfolding Q by (rule expand_measure [OF fin fresh]) simp
        from False less.prems(1) have g: "goal \<notin> insert c V" by auto
        have inv: "\<forall>(c', p') \<in> set ?Q. entry_ok g start (insert c V) c' p'"
          using ok_rest ok fresh by (rule entries_expand)
        from less.hyps [OF m g inv] eq show ?thesis by simp
      qed
    qed
  qed
qed

lemma bfs_total:
  assumes "finite (dom g)"
  shows "\<exists>r. bfs g start goal = Some r \<and> (\<forall>p. r = Path p \<longrightarrow> simple_path g start goal p)"
  unfolding bfs_def
  by (rule bfs_loop_total [OF assms]) (simp_all add: entry_ok_init)

section \<open>Depth-first search: the loop ends and its path is simple\<close>

lemma dfs_loop_total:
  assumes fin: "finite (dom g)"
  shows "goal \<notin> V \<Longrightarrow> \<forall>(c, p) \<in> set S. entry_ok g start V c p \<Longrightarrow>
    \<exists>r. dfs_loop g goal S V = Some r \<and> (\<forall>p. r = Path p \<longrightarrow> simple_path g start goal p)"
proof (induction "(card (dom g - V), length S)" arbitrary: S V rule: less_induct)
  case less
  show ?case
  proof (cases "S = []")
    case True
    then show ?thesis by (subst dfs_loop.simps) simp
  next
    case ne: False
    obtain c p where top: "last S = (c, p)" by (cases "last S")
    from ne top have "(c, p) \<in> set S" using last_in_set by metis
    with less.prems(2) have ok: "entry_ok g start V c p" by auto
    from less.prems(2) have ok_rest: "\<forall>(c, p) \<in> set (butlast S). entry_ok g start V c p"
      by (auto dest: in_set_butlastD)
    from ne have len: "length (butlast S) < length S" by simp
    show ?thesis
    proof (cases "c = goal")
      case True
      with ne top have "dfs_loop g goal S V = Some (Path p)"
        by (subst dfs_loop.simps) simp
      moreover from ok True less.prems(1) have "simple_path g start goal p"
        using entry_ok_goal by blast
      ultimately show ?thesis by simp
    next
      case False
      show ?thesis
      proof (cases "c \<in> V")
        case True
        with False ne top have eq: "dfs_loop g goal S V = dfs_loop g goal (butlast S) V"
          by (subst dfs_loop.simps) simp
        from len have "(card (dom g - V), length (butlast S)) < (card (dom g - V), length S)"
          by simp
        from less.hyps [OF this less.prems(1) ok_rest] eq show ?thesis by simp
      next
        case fresh: False
        let ?S = "butlast S @ map (\<lambda>neighbor. (neighbor, p @ [neighbor])) (graph_get g c)"
        from False fresh ne top have eq: "dfs_loop g goal S V = dfs_loop g goal ?S (insert c V)"
          by (subst dfs_loop.simps) simp
        have m: "(card (dom g - insert c V), length ?S) < (card (dom g - V), length S)"
          by (rule expand_measure [OF fin fresh len])
        from False less.prems(1) have g: "goal \<notin> insert c V" by auto
        have inv: "\<forall>(c', p') \<in> set ?S. entry_ok g start (insert c V) c' p'"
          using ok_rest ok fresh by (rule entries_expand)
        from less.hyps [OF m g inv] eq show ?thesis by simp
      qed
    qed
  qed
qed

lemma dfs_total:
  assumes "finite (dom g)"
  shows "\<exists>r. dfs g start goal = Some r \<and> (\<forall>p. r = Path p \<longrightarrow> simple_path g start goal p)"
  unfolding dfs_def
  by (rule dfs_loop_total [OF assms]) (simp_all add: entry_ok_init)

section \<open>The priority queue\<close>

lemma heappop_eq:
  assumes "heap \<noteq> []"
  shows "\<exists>m. heappop heap = (m, remove1 m heap) \<and> m \<in> set heap \<and> (\<forall>x \<in> set heap. m \<le> x)"
proof -
  from assms have "Min (set heap) \<in> set heap" by (intro Min_in) simp_all
  moreover have "\<forall>x \<in> set heap. Min (set heap) \<le> x" by simp
  ultimately show ?thesis unfolding heappop_def Let_def by blast
qed

lemma length_remove1_less: "m \<in> set heap \<Longrightarrow> length (remove1 m heap) < length heap"
  by (induction heap) auto

lemma in_remove1: "x \<in> set (remove1 m heap) \<Longrightarrow> x \<in> set heap"
  using set_remove1_subset [of m heap] by blast

section \<open>The heuristic\<close>

lemma heuristic_missing_city:
  "city \<notin> dom cities \<Longrightarrow> heuristic ops cities goal city = Inl (KeyError city)"
  by (auto simp: heuristic_def split: option.splits)

lemma heuristic_missing_goal:
  "city \<in> dom cities \<Longrightarrow> goal \<notin> dom cities \<Longrightarrow>
     heuristic ops cities goal city = Inl (KeyError goal)"
  by (auto simp: heuristic_def split: option.splits)

lemma float_square_not_KeyError: "float_square ops x \<noteq> Inl (KeyError k)"
  by (simp add: float_square_def split: option.splits)

lemma heuristic_KeyError:
  assumes "heuristic ops cities goal city = Inl (KeyError k)"
  shows "(city \<notin> dom cities \<and> k = city) \<or> (city \<in> dom cities \<and> goal \<notin> dom cities \<and> k = goal)"
proof (cases "cities city")
  case None
  with assms show ?thesis by (simp add: heuristic_def domIff)
next
  case c: (Some a)
  show ?thesis
  proof (cases "cities goal")
    case None
    with c assms show ?thesis by (cases a) (simp add: heuristic_def domIff)
  next
    case (Some b)
    with c assms float_square_not_KeyError [of ops _ k] show ?thesis
      by (cases a; cases b) (simp add: heuristic_def split: sum.splits)
  qed
qed

lemma heuristic_Inr_dom:
  "heuristic ops cities goal city = Inr h \<Longrightarrow> city \<in> dom cities \<and> goal \<in> dom cities"
  by (auto simp: heuristic_def split: option.splits)

lemma heuristic_defined_iff:
  "heuristic_defined ops cities goal city \<longleftrightarrow> (\<exists>h. heuristic ops cities goal city = Inr h)"
  unfolding heuristic_defined_def by (cases "heuristic ops cities goal city") simp_all

lemma heuristic_defined_not_Inl:
  "heuristic_defined ops cities goal city \<Longrightarrow> heuristic ops cities goal city \<noteq> Inl e"
  unfolding heuristic_defined_def by (cases "heuristic ops cities goal city") simp_all

lemma reachable_start_defined:
  "reachable_defined ops g cities start goal \<Longrightarrow> heuristic_defined ops cities goal start"
proof -
  assume r: "reachable_defined ops g cities start goal"
  have "walk g [start] \<and> hd [start] = start" by simp
  with r have "heuristic_defined ops cities goal (last [start])"
    unfolding reachable_defined_def by blast
  then show ?thesis by simp
qed

lemma reachable_neighbours_defined:
  assumes "reachable_defined ops g cities start goal" "entry_ok g start V c p"
  shows "\<forall>n \<in> set (graph_get g c). heuristic_defined ops cities goal n"
proof
  fix n assume n: "n \<in> set (graph_get g c)"
  from assms(2) have w: "walk g p" and h: "hd p = start" and l: "last p = c"
    unfolding entry_ok_def by blast+
  from w have ne: "p \<noteq> []" by (rule walk_not_Nil)
  from w n l have "walk g (p @ [n])" by (simp add: walk_snoc)
  moreover from ne h have "hd (p @ [n]) = start" by simp
  ultimately have "heuristic_defined ops cities goal (last (p @ [n]))"
    using assms(1) unfolding reachable_defined_def by blast
  then show "heuristic_defined ops cities goal n" by simp
qed

lemma walk_first_edge:
  assumes "walk g p" "hd p \<noteq> last p"
  shows "hd p \<in> dom g"
proof (cases p)
  case Nil
  with assms show ?thesis by simp
next
  case (Cons a q)
  note p = Cons
  show ?thesis
  proof (cases q)
    case Nil
    with p assms show ?thesis by simp
  next
    case (Cons b r)
    with p assms(1) have "b \<in> set (graph_get g a)" by simp
    then have "graph_get g a \<noteq> []" by auto
    then have "a \<in> dom g" using graph_get_absent [of a g] by blast
    with p show ?thesis by simp
  qed
qed

lemma walk_last_edge:
  assumes "walk g p" "hd p \<noteq> last p"
  shows "\<exists>x. last p \<in> set (graph_get g x)"
proof -
  from assms(1) have ne: "p \<noteq> []" by (rule walk_not_Nil)
  then have p: "p = butlast p @ [last p]" by simp
  have "butlast p \<noteq> []"
  proof
    assume "butlast p = []"
    with p have "p = [last p]" by simp
    then have "hd p = last p" by (metis list.sel(1))
    with assms(2) show False by simp
  qed
  moreover from assms(1) p have "walk g (butlast p @ [last p])" by simp
  ultimately have "last p \<in> set (graph_get g (last (butlast p)))"
    by (simp add: walk_snoc)
  then show ?thesis ..
qed

lemma reachable_defined_listed:
  assumes "heuristic_defined ops cities goal start"
    and "\<And>c n. n \<in> set (graph_get g c) \<Longrightarrow> heuristic_defined ops cities goal n"
  shows "reachable_defined ops g cities start goal"
  unfolding reachable_defined_def
proof (intro allI impI)
  fix q assume q: "walk g q \<and> hd q = start"
  show "heuristic_defined ops cities goal (last q)"
  proof (cases "hd q = last q")
    case True
    with q assms(1) show ?thesis by simp
  next
    case False
    with q walk_last_edge [of g q] obtain x where "last q \<in> set (graph_get g x)" by blast
    then show ?thesis by (rule assms(2))
  qed
qed

section \<open>Best-first search: the loop ends and its path is simple\<close>

lemma best_first_for_no_error:
  assumes "\<forall>n \<in> set nbrs. heuristic_defined ops cities goal n"
  shows "\<exists>pq2. best_first_for ops cities goal path pq nbrs = Inr pq2"
  using assms
proof (induction nbrs arbitrary: pq)
  case Nil
  then show ?case by simp
next
  case (Cons n nbrs)
  from Cons.prems have "heuristic_defined ops cities goal n" by simp
  then obtain h where "heuristic ops cities goal n = Inr h"
    unfolding heuristic_defined_iff ..
  moreover from Cons.prems have "\<forall>n \<in> set nbrs. heuristic_defined ops cities goal n" by simp
  ultimately show ?case using Cons.IH by simp
qed

lemma best_first_for_error:
  assumes "n \<in> set nbrs" "heuristic ops cities goal n = Inl e"
  shows "\<exists>e'. best_first_for ops cities goal path pq nbrs = Inl e'"
  using assms(1)
proof (induction nbrs arbitrary: pq)
  case Nil
  then show ?case by simp
next
  case (Cons a nbrs)
  show ?case
  proof (cases "heuristic ops cities goal a")
    case (Inl e')
    then show ?thesis by simp
  next
    case (Inr h)
    with assms(2) have "a \<noteq> n" by auto
    with Cons.prems have "n \<in> set nbrs" by simp
    from Cons.IH [OF this] Inr show ?thesis by simp
  qed
qed

lemma best_first_for_entries:
  "best_first_for ops cities goal path pq nbrs = Inr pq2 \<Longrightarrow>
     (nbrs = [] \<longrightarrow> pq2 = pq) \<and>
     (\<forall>(h, c, p) \<in> set pq2. (h, c, p) \<in> set pq \<or> (c \<in> set nbrs \<and> p = path @ [c]))"
proof (induction nbrs arbitrary: pq)
  case Nil
  then show ?case by auto
next
  case (Cons n nbrs)
  from Cons.prems obtain h where h: "heuristic ops cities goal n = Inr h"
    and r: "best_first_for ops cities goal path (heappush pq (h, n, path @ [n])) nbrs = Inr pq2"
    by (auto split: sum.splits)
  from Cons.IH [OF r] show ?case by (auto simp: heappush_def)
qed

lemma best_first_loop_total:
  assumes fin: "finite (dom g)"
  shows "goal \<notin> V \<Longrightarrow> \<forall>(h, c, p) \<in> set pq. entry_ok g start V c p \<Longrightarrow>
    \<exists>r. best_first_loop ops g cities goal pq V = Some r \<and>
         (\<forall>p. r = Inr (Path p) \<longrightarrow> simple_path g start goal p) \<and>
         (reachable_defined ops g cities start goal \<longrightarrow> (\<forall>e. r \<noteq> Inl e))"
proof (induction "(card (dom g - V), length pq)" arbitrary: pq V rule: less_induct)
  case less
  show ?case
  proof (cases "pq = []")
    case True
    then show ?thesis by (subst best_first_loop.simps) simp
  next
    case ne: False
    from heappop_eq [OF ne] obtain m where pop: "heappop pq = (m, remove1 m pq)"
      and m_in: "m \<in> set pq" by blast
    obtain h c p where m: "m = (h, c, p)" by (cases m)
    let ?pq1 = "remove1 m pq"
    from m_in m less.prems(2) have ok: "entry_ok g start V c p" by auto
    from less.prems(2) have ok_rest: "\<forall>(h, c, p) \<in> set ?pq1. entry_ok g start V c p"
      by (auto dest: in_remove1)
    from m_in have len: "length ?pq1 < length pq" by (rule length_remove1_less)
    show ?thesis
    proof (cases "c = goal")
      case True
      with ne pop m have "best_first_loop ops g cities goal pq V = Some (Inr (Path p))"
        by (subst best_first_loop.simps) simp
      moreover from ok True less.prems(1) have "simple_path g start goal p"
        using entry_ok_goal by blast
      ultimately show ?thesis by simp
    next
      case False
      show ?thesis
      proof (cases "c \<in> V")
        case True
        with False ne pop m
        have eq: "best_first_loop ops g cities goal pq V = best_first_loop ops g cities goal ?pq1 V"
          by (subst best_first_loop.simps) simp
        from len have "(card (dom g - V), length ?pq1) < (card (dom g - V), length pq)"
          by simp
        from less.hyps [OF this less.prems(1) ok_rest] eq show ?thesis by simp
      next
        case fresh: False
        show ?thesis
        proof (cases "best_first_for ops cities goal p ?pq1 (graph_get g c)")
          case (Inl e)
          with False fresh ne pop m
          have "best_first_loop ops g cities goal pq V = Some (Inl e)"
            by (subst best_first_loop.simps) simp
          moreover have "\<not> reachable_defined ops g cities start goal"
          proof
            assume "reachable_defined ops g cities start goal"
            then have "\<forall>n \<in> set (graph_get g c). heuristic_defined ops cities goal n"
              using ok by (rule reachable_neighbours_defined)
            from best_first_for_no_error [OF this, of p ?pq1] Inl
            show False by auto
          qed
          ultimately show ?thesis by simp
        next
          case (Inr pq2)
          with False fresh ne pop m
          have eq: "best_first_loop ops g cities goal pq V =
                    best_first_loop ops g cities goal pq2 (insert c V)"
            by (subst best_first_loop.simps) simp
          note ents = best_first_for_entries [OF Inr]
          have m': "(card (dom g - insert c V), length pq2) < (card (dom g - V), length pq)"
          proof (cases "c \<in> dom g")
            case True
            from card_unvisited_less [OF fin True fresh] show ?thesis by simp
          next
            case False
            then have "graph_get g c = []" by (rule graph_get_absent)
            with ents have "pq2 = ?pq1" by simp
            with card_unvisited_le [OF fin, of c V] len show ?thesis by simp
          qed
          from False less.prems(1) have gl: "goal \<notin> insert c V" by auto
          have inv: "\<forall>(h, c', p') \<in> set pq2. entry_ok g start (insert c V) c' p'"
          proof (intro ballI)
            fix e assume e: "e \<in> set pq2"
            obtain h' c' p' where e': "e = (h', c', p')" by (cases e)
            from ents e e' have "(h', c', p') \<in> set ?pq1 \<or>
                (c' \<in> set (graph_get g c) \<and> p' = p @ [c'])" by blast
            then have "entry_ok g start (insert c V) c' p'"
            proof
              assume "(h', c', p') \<in> set ?pq1"
              with ok_rest have "entry_ok g start V c' p'" by blast
              then show ?thesis by (rule entry_ok_insert)
            next
              assume "c' \<in> set (graph_get g c) \<and> p' = p @ [c']"
              with entry_ok_extend [OF ok fresh] show ?thesis by blast
            qed
            with e' show "case e of (h, c', p') \<Rightarrow> entry_ok g start (insert c V) c' p'"
              by simp
          qed
          from less.hyps [OF m' gl inv] eq show ?thesis by simp
        qed
      qed
    qed
  qed
qed

lemma best_first_total:
  assumes "finite (dom g)"
  shows "\<exists>r. best_first_search ops g cities start goal = Some r \<and>
           (\<forall>p. r = Inr (Path p) \<longrightarrow> simple_path g start goal p) \<and>
           (reachable_defined ops g cities start goal \<longrightarrow> (\<forall>e. r \<noteq> Inl e))"
proof (cases "heuristic ops cities goal start")
  case (Inl e)
  have "\<not> reachable_defined ops g cities start goal"
  proof
    assume "reachable_defined ops g cities start goal"
    then have "heuristic_defined ops cities goal start" by (rule reachable_start_defined)
    with Inl show False by (simp add: heuristic_defined_def)
  qed
  with Inl show ?thesis by (simp add: best_first_search_def)
next
  case (Inr h)
  have "\<exists>r. best_first_loop ops g cities goal [(h, start, [start])] {} = Some r \<and>
           (\<forall>p. r = Inr (Path p) \<longrightarrow> simple_path g start goal p) \<and>
           (reachable_defined ops g cities start goal \<longrightarrow> (\<forall>e. r \<noteq> Inl e))"
    by (rule best_first_loop_total [OF assms]) (simp_all add: entry_ok_init)
  with Inr show ?thesis by (simp add: best_first_search_def)
qed

section \<open>A*: the loop ends and its path is simple\<close>

lemma a_star_for_entries:
  "a_star_for ops cities goal path cost gs open1 nbrs = Inr (gs2, open2) \<Longrightarrow>
     (nbrs = [] \<longrightarrow> open2 = open1) \<and>
     (\<forall>(h, c, p, k) \<in> set open2. (h, c, p, k) \<in> set open1 \<or> (c \<in> set nbrs \<and> p = path @ [c]))"
proof (induction nbrs arbitrary: gs open1)
  case Nil
  then show ?case by auto
next
  case (Cons n nbrs)
  from Cons.prems obtain h where h: "heuristic ops cities goal n = Inr h"
    by (auto split: sum.splits)
  let ?new = "fadd ops cost h"
  show ?case
  proof (cases "case gs n of None \<Rightarrow> True | Some old \<Rightarrow> ?new < old")
    case True
    with Cons.prems h have r: "a_star_for ops cities goal path cost (gs(n \<mapsto> ?new))
        (heappush open1 (fadd ops ?new h, n, path @ [n], ?new)) nbrs = Inr (gs2, open2)"
      by (simp add: Let_def)
    from Cons.IH [OF r] show ?thesis by (auto simp: heappush_def)
  next
    case False
    with Cons.prems h have r: "a_star_for ops cities goal path cost gs open1 nbrs = Inr (gs2, open2)"
      by (simp add: Let_def)
    from Cons.IH [OF r] show ?thesis by auto
  qed
qed

lemma a_star_for_no_error:
  assumes "\<forall>n \<in> set nbrs. heuristic_defined ops cities goal n"
  shows "\<exists>st. a_star_for ops cities goal path cost gs open1 nbrs = Inr st"
  using assms
proof (induction nbrs arbitrary: gs open1)
  case Nil
  then show ?case by simp
next
  case (Cons n nbrs)
  from Cons.prems have "heuristic_defined ops cities goal n" by simp
  then obtain h where "heuristic ops cities goal n = Inr h"
    unfolding heuristic_defined_iff ..
  moreover from Cons.prems have "\<forall>n \<in> set nbrs. heuristic_defined ops cities goal n" by simp
  ultimately show ?case using Cons.IH by (simp add: Let_def)
qed

lemma a_star_for_error:
  assumes "n \<in> set nbrs" "heuristic ops cities goal n = Inl e"
  shows "\<exists>e'. a_star_for ops cities goal path cost gs open1 nbrs = Inl e'"
  using assms(1)
proof (induction nbrs arbitrary: gs open1)
  case Nil
  then show ?case by simp
next
  case (Cons a nbrs)
  show ?case
  proof (cases "heuristic ops cities goal a")
    case (Inl e')
    then show ?thesis by simp
  next
    case (Inr h)
    with assms(2) have "a \<noteq> n" by auto
    with Cons.prems have "n \<in> set nbrs" by simp
    from Cons.IH [OF this] Inr show ?thesis by (simp add: Let_def)
  qed
qed

lemma a_star_loop_total:
  assumes fin: "finite (dom g)"
  shows "goal \<notin> V \<Longrightarrow> \<forall>(h, c, p, k) \<in> set os. entry_ok g start V c p \<Longrightarrow>
    \<exists>r. a_star_loop ops g cities goal os gs V = Some r \<and>
         (\<forall>p. r = Inr (Path p) \<longrightarrow> simple_path g start goal p) \<and>
         (reachable_defined ops g cities start goal \<longrightarrow> (\<forall>e. r \<noteq> Inl e))"
proof (induction "(card (dom g - V), length os)" arbitrary: os gs V rule: less_induct)
  case less
  show ?case
  proof (cases "os = []")
    case True
    then show ?thesis by (subst a_star_loop.simps) simp
  next
    case ne: False
    from heappop_eq [OF ne] obtain m where pop: "heappop os = (m, remove1 m os)"
      and m_in: "m \<in> set os" by blast
    obtain h c p k where m: "m = (h, c, p, k)" by (cases m)
    let ?os1 = "remove1 m os"
    from m_in m less.prems(2) have ok: "entry_ok g start V c p" by auto
    from less.prems(2) have ok_rest: "\<forall>(h, c, p, k) \<in> set ?os1. entry_ok g start V c p"
      by (auto dest: in_remove1)
    from m_in have len: "length ?os1 < length os" by (rule length_remove1_less)
    show ?thesis
    proof (cases "c = goal")
      case True
      with ne pop m have "a_star_loop ops g cities goal os gs V = Some (Inr (Path p))"
        by (subst a_star_loop.simps) simp
      moreover from ok True less.prems(1) have "simple_path g start goal p"
        using entry_ok_goal by blast
      ultimately show ?thesis by simp
    next
      case False
      show ?thesis
      proof (cases "c \<in> V")
        case True
        with False ne pop m
        have eq: "a_star_loop ops g cities goal os gs V = a_star_loop ops g cities goal ?os1 gs V"
          by (subst a_star_loop.simps) simp
        from len have "(card (dom g - V), length ?os1) < (card (dom g - V), length os)"
          by simp
        from less.hyps [OF this less.prems(1) ok_rest] eq show ?thesis by simp
      next
        case fresh: False
        show ?thesis
        proof (cases "a_star_for ops cities goal p k gs ?os1 (graph_get g c)")
          case (Inl e)
          with False fresh ne pop m
          have "a_star_loop ops g cities goal os gs V = Some (Inl e)"
            by (subst a_star_loop.simps) simp
          moreover have "\<not> reachable_defined ops g cities start goal"
          proof
            assume "reachable_defined ops g cities start goal"
            then have "\<forall>n \<in> set (graph_get g c). heuristic_defined ops cities goal n"
              using ok by (rule reachable_neighbours_defined)
            from a_star_for_no_error [OF this, of p k gs ?os1] Inl
            show False by auto
          qed
          ultimately show ?thesis by simp
        next
          case (Inr st)
          obtain gs2 os2 where st: "st = (gs2, os2)" by (cases st)
          from Inr st False fresh ne pop m
          have eq: "a_star_loop ops g cities goal os gs V =
                    a_star_loop ops g cities goal os2 gs2 (insert c V)"
            by (subst a_star_loop.simps) simp
          note ents = a_star_for_entries [OF Inr [unfolded st]]
          have m': "(card (dom g - insert c V), length os2) < (card (dom g - V), length os)"
          proof (cases "c \<in> dom g")
            case True
            from card_unvisited_less [OF fin True fresh] show ?thesis by simp
          next
            case False
            then have "graph_get g c = []" by (rule graph_get_absent)
            with ents have "os2 = ?os1" by simp
            with card_unvisited_le [OF fin, of c V] len show ?thesis by simp
          qed
          from False less.prems(1) have gl: "goal \<notin> insert c V" by auto
          have inv: "\<forall>(h, c', p', k') \<in> set os2. entry_ok g start (insert c V) c' p'"
          proof (intro ballI)
            fix e assume e: "e \<in> set os2"
            obtain h' c' p' k' where e': "e = (h', c', p', k')" by (cases e)
            from ents e e' have "(h', c', p', k') \<in> set ?os1 \<or>
                (c' \<in> set (graph_get g c) \<and> p' = p @ [c'])" by blast
            then have "entry_ok g start (insert c V) c' p'"
            proof
              assume "(h', c', p', k') \<in> set ?os1"
              with ok_rest have "entry_ok g start V c' p'" by blast
              then show ?thesis by (rule entry_ok_insert)
            next
              assume "c' \<in> set (graph_get g c) \<and> p' = p @ [c']"
              with entry_ok_extend [OF ok fresh] show ?thesis by blast
            qed
            with e' show "case e of (h, c', p', k') \<Rightarrow> entry_ok g start (insert c V) c' p'"
              by simp
          qed
          from less.hyps [OF m' gl inv] eq show ?thesis by simp
        qed
      qed
    qed
  qed
qed

lemma a_star_total:
  assumes "finite (dom g)"
  shows "\<exists>r. a_star ops g cities start goal = Some r \<and>
           (\<forall>p. r = Inr (Path p) \<longrightarrow> simple_path g start goal p) \<and>
           (reachable_defined ops g cities start goal \<longrightarrow> (\<forall>e. r \<noteq> Inl e))"
  unfolding a_star_def
  by (rule a_star_loop_total [OF assms]) (simp_all add: entry_ok_init)

section \<open>The searches on the example graphs\<close>

lemma line3_dom: "dom line3 = {''A'', ''B'', ''C''}"
  by (auto simp: line3_def load_adjacencies_def setdefault_append_def)

lemma line3_finite: "finite (dom line3)"
  by (simp add: line3_dom)

lemma line3_symmetric: "symmetric line3"
  unfolding line3_def load_adjacencies_def
  by (rule symmetric_foldl_load_row [OF symmetric_empty])

lemma line3_listed:
  assumes "n \<in> set (graph_get line3 c)"
  shows "n = ''A'' \<or> n = ''B'' \<or> n = ''C''"
proof -
  from assms have "c \<in> dom line3" using graph_get_absent [of c line3] by fastforce
  then consider "c = ''A''" | "c = ''B''" | "c = ''C''" unfolding line3_dom by blast
  then show ?thesis
  proof cases
    case 1
    with assms show ?thesis by (simp add: line3_get)
  next
    case 2
    with assms show ?thesis by (auto simp: line3_get)
  next
    case 3
    with assms show ?thesis by (simp add: line3_get)
  qed
qed

lemma bfs_line3: "bfs line3 ''A'' ''C'' = Some (Path [''A'', ''B'', ''C''])"
  by (simp add: bfs_def bfs_loop.simps line3_get)

lemma dfs_line3: "dfs line3 ''A'' ''C'' = Some (Path [''A'', ''B'', ''C''])"
  by (simp add: dfs_def dfs_loop.simps line3_get)

lemma iddfs_line3: "iddfs line3 ''A'' ''C'' default_max_depth = Path [''A'', ''B'', ''C'']"
  by (simp add: iddfs_def default_max_depth_def upt_conv_Cons line3_get eval_nat_numeral)

lemma real_ops_simps:
  "fzero real_ops = 0"
  "fsub real_ops x y = x - y"
  "fadd real_ops x y = x + y"
  "fsquare real_ops x = (if binary64_overflow \<le> x * x then None else Some (x * x))"
  "froot real_ops x = sqrt x"
  by (simp_all add: real_ops_def)

lemmas real_heuristic =
  heuristic_def real_ops_simps float_sub_def float_square_def binary64_overflow_def

lemma heuristic3:
  "heuristic real_ops cities3 ''C'' ''A'' = Inr 2"
  "heuristic real_ops cities3 ''C'' ''B'' = Inr 1"
  "heuristic real_ops cities3 ''C'' ''C'' = Inr 0"
  by (simp_all add: real_heuristic cities3_def)

lemma best_first_line3:
  "best_first_search real_ops line3 cities3 ''A'' ''C'' = Some (Inr (Path [''A'', ''B'', ''C'']))"
  by (simp add: best_first_search_def best_first_loop.simps heuristic3 line3_get
      heappop_def heappush_def)

lemma a_star_line3:
  "a_star real_ops line3 cities3 ''A'' ''C'' = Some (Inr (Path [''A'', ''B'', ''C'']))"
  by (simp add: a_star_def a_star_loop.simps heuristic3 line3_get
      heappop_def heappush_def real_ops_simps)

lemma heuristic_near:
  "heuristic real_ops cities_near ''Z'' ''A'' = Inr 3"
  "heuristic real_ops cities_near ''Z'' ''B'' = Inr 2"
  "heuristic real_ops cities_near ''Z'' ''C'' = Inr 1"
  by (simp_all add: real_heuristic cities_near_def)

lemma line3_reachable_defined: "reachable_defined real_ops line3 cities_near ''A'' ''Z''"
proof (rule reachable_defined_listed)
  show "heuristic_defined real_ops cities_near ''Z'' ''A''"
    by (simp add: heuristic_defined_def heuristic_near)
next
  fix c n assume "n \<in> set (graph_get line3 c)"
  then have "n = ''A'' \<or> n = ''B'' \<or> n = ''C''" by (rule line3_listed)
  then show "heuristic_defined real_ops cities_near ''Z'' n"
    by (auto simp: heuristic_defined_def heuristic_near)
qed

lemma square_get:
  "graph_get square ''A'' = [''B'', ''D'']"
  "graph_get square ''B'' = [''A'', ''C'']"
  "graph_get square ''C'' = [''B'', ''D'']"
  "graph_get square ''D'' = [''A'', ''C'']"
  by (simp_all add: square_def load_adjacencies_def graph_get_setdefault_append graph_get_empty)

lemma square_dom: "dom square = {''A'', ''B'', ''C'', ''D''}"
  by (auto simp: square_def load_adjacencies_def setdefault_append_def)

lemma square_finite: "finite (dom square)"
  by (simp add: square_dom)

lemma heuristic4:
  "heuristic real_ops cities4 ''C'' ''A'' = Inr 2"
  "heuristic real_ops cities4 ''C'' ''B'' = Inr 1"
  "heuristic real_ops cities4 ''C'' ''C'' = Inr 0"
  "heuristic real_ops cities4 ''C'' ''D'' = Inr 1"
  by (simp_all add: real_heuristic cities4_def)

lemma bfs_square: "bfs square ''A'' ''C'' = Some (Path [''A'', ''B'', ''C''])"
  by (simp add: bfs_def bfs_loop.simps square_get)

lemma dfs_square: "dfs square ''A'' ''C'' = Some (Path [''A'', ''D'', ''C''])"
  by (simp add: dfs_def dfs_loop.simps square_get)

lemma a_star_square:
  "a_star real_ops square cities4 ''A'' ''C'' = Some (Inr (Path [''A'', ''B'', ''C'']))"
  by (simp add: a_star_def a_star_loop.simps heuristic4 square_get
      heappop_def heappush_def real_ops_simps)

lemma best_first_square:
  "best_first_search real_ops square cities4 ''A'' ''C'' = Some (Inr (Path [''A'', ''B'', ''C'']))"
  by (simp add: best_first_search_def best_first_loop.simps heuristic4 square_get
      heappop_def heappush_def)

lemma two_parts_get:
  "graph_get two_parts ''A'' = [''B'']"
  "graph_get two_parts ''B'' = [''A'']"
  "graph_get two_parts ''X'' = [''Y'']"
  "graph_get two_parts ''Y'' = [''X'']"
  by (simp_all add: two_parts_def load_adjacencies_def graph_get_setdefault_append graph_get_empty)

lemma two_parts_dom: "dom two_parts = {''A'', ''B'', ''X'', ''Y''}"
  by (auto simp: two_parts_def load_adjacencies_def setdefault_append_def)

lemma two_parts_finite: "finite (dom two_parts)"
  by (simp add: two_parts_dom)

lemma heuristic_AB:
  "heuristic real_ops cities_AB ''B'' ''A'' = Inr 1"
  "heuristic real_ops cities_AB ''B'' ''B'' = Inr 0"
  by (simp_all add: real_heuristic cities_AB_def)

lemma iddfs_square: "iddfs square ''A'' ''C'' default_max_depth = Path [''A'', ''B'', ''C'']"
  by (simp add: iddfs_def default_max_depth_def upt_conv_Cons square_get eval_nat_numeral)

lemma best_first_log_square:
  "best_first_search_log real_ops square cities4 ''A'' ''C'' =
     Some (Inr (Path [''A'', ''B'', ''C'']), [''A'', ''B'', ''D'', ''A'', ''C''])"
  by (simp add: best_first_search_log_def best_first_loop_log.simps heuristic4 square_get
      heappop_def heappush_def)

lemma a_star_log_square:
  "a_star_log real_ops square cities4 ''A'' ''C'' =
     Some (Inr (Path [''A'', ''B'', ''C'']), [''B'', ''D'', ''A'', ''C''])"
  by (simp add: a_star_log_def a_star_loop_log.simps heuristic4 square_get
      heappop_def heappush_def real_ops_simps)

lemma best_first_log_two_parts:
  "best_first_search_log real_ops two_parts cities_AB ''A'' ''B'' =
     Some (Inr (Path [''A'', ''B'']), [''A'', ''B''])"
  by (simp add: best_first_search_log_def best_first_loop_log.simps heuristic_AB two_parts_get
      heappop_def heappush_def)

lemma a_star_log_two_parts:
  "a_star_log real_ops two_parts cities_AB ''A'' ''B'' = Some (Inr (Path [''A'', ''B'']), [''B''])"
  by (simp add: a_star_log_def a_star_loop_log.simps heuristic_AB two_parts_get
      heappop_def heappush_def real_ops_simps)

lemma heuristic_wide:
  "heuristic real_ops cities_wide ''C'' ''A'' = Inl OverflowError"
  "heuristic real_ops cities_wide ''C'' ''B'' = Inl OverflowError"
  by (simp_all add: real_heuristic cities_wide_def)

lemma best_first_wide:
  "best_first_search real_ops line3 cities_wide ''A'' ''C'' = Some (Inl OverflowError)"
  by (simp add: best_first_search_def heuristic_wide)

lemma a_star_wide:
  "a_star real_ops line3 cities_wide ''A'' ''C'' = Some (Inl OverflowError)"
  by (simp add: a_star_def a_star_loop.simps heuristic_wide line3_get
      heappop_def heappush_def real_ops_simps)

section \<open>Equal endpoints\<close>

lemma bfs_same: "bfs g n n = Some (Path [n])"
  unfolding bfs_def by (subst bfs_loop.simps) simp

lemma dfs_same: "dfs g n n = Some (Path [n])"
  unfolding dfs_def by (subst dfs_loop.simps) simp

lemma dls_same: "dls g n n [n] (Suc d) = Path [n]"
  by simp

lemma iddfs_same: "2 \<le> max_depth \<Longrightarrow> iddfs g n n max_depth = Path [n]"
proof -
  assume "2 \<le> max_depth"
  then have "[0..<nat max_depth] = 0 # Suc 0 # [2..<nat max_depth]"
    by (simp add: upt_conv_Cons numeral_2_eq_2)
  then show ?thesis
    by (simp add: iddfs_def)
qed

lemma heappop_single: "heappop [x] = (x, [])"
  by (simp add: heappop_def)

lemma heuristic_same:
  "cities n = Some c \<Longrightarrow>
     heuristic ops cities n n = Inr (froot ops (fadd ops (fzero ops) (fzero ops)))"
  by (cases c) (simp add: heuristic_def float_sub_def float_square_def)

lemma best_first_same:
  "cities n = Some c \<Longrightarrow> best_first_search ops g cities n n = Some (Inr (Path [n]))"
  unfolding best_first_search_def
  by (subst best_first_loop.simps) (simp add: heuristic_same heappop_single)

lemma a_star_same: "a_star ops g cities n n = Some (Inr (Path [n]))"
  unfolding a_star_def
  by (subst a_star_loop.simps) (simp add: heappop_single)

text \<open>
  Claim C2. Called with the start equal to the goal, each of the five searches returns
  the path of that one city, whatever the graph holds (the city need not be in it) and
  whatever the arithmetic of the floats is. \<open>iddfs\<close> is taken at its default depth;
  \<open>best_first_search\<close> evaluates the heuristic of the start before the loop, so the city
  must have coordinates; \<open>a_star\<close> does not.
\<close>

theorem search_same_endpoints:
  "bfs graph n n = Some (Path [n]) \<and>
   dfs graph n n = Some (Path [n]) \<and>
   iddfs graph n n default_max_depth = Path [n] \<and>
   (n \<in> dom cities \<longrightarrow> best_first_search ops graph cities n n = Some (Inr (Path [n]))) \<and>
   a_star ops graph cities n n = Some (Inr (Path [n]))"
  using best_first_same [of cities n _ ops]
  by (auto simp: bfs_same dfs_same iddfs_same default_max_depth_def a_star_same)

theorem search_same_endpoints_witness:
  "''X'' \<in> dom [''X'' \<mapsto> (1::real, 2::real)] \<and>
   bfs Map.empty ''X'' ''X'' = Some (Path [''X'']) \<and>
   dfs Map.empty ''X'' ''X'' = Some (Path [''X'']) \<and>
   iddfs Map.empty ''X'' ''X'' default_max_depth = Path [''X''] \<and>
   best_first_search real_ops Map.empty [''X'' \<mapsto> (1, 2)] ''X'' ''X'' = Some (Inr (Path [''X''])) \<and>
   a_star real_ops Map.empty [''X'' \<mapsto> (1, 2)] ''X'' ''X'' = Some (Inr (Path [''X'']))"
  using search_same_endpoints [of Map.empty "''X''" "[''X'' \<mapsto> (1, 2)]" real_ops]
  by simp

section \<open>The timing harness returns the result alone\<close>




section \<open>Returned paths\<close>

text \<open>
  Claim C3. In a graph (a dictionary, so with finitely many keys), a path that any of the
  five searches returns starts at the start, ends at the goal, goes from each city to one
  of its neighbours, and holds no city twice, whatever the arithmetic of the floats is.
\<close>

theorem returned_path_is_simple:
  assumes "finite (dom graph)"
  shows "(bfs graph start goal = Some (Path p) \<longrightarrow> simple_path graph start goal p) \<and>
         (dfs graph start goal = Some (Path p) \<longrightarrow> simple_path graph start goal p) \<and>
         (iddfs graph start goal max_depth = Path p \<longrightarrow> simple_path graph start goal p) \<and>
         (best_first_search ops graph cities start goal = Some (Inr (Path p))
            \<longrightarrow> simple_path graph start goal p) \<and>
         (a_star ops graph cities start goal = Some (Inr (Path p))
            \<longrightarrow> simple_path graph start goal p)"
proof (intro conjI impI)
  assume "bfs graph start goal = Some (Path p)"
  with bfs_total [OF assms, of start goal] show "simple_path graph start goal p" by auto
next
  assume "dfs graph start goal = Some (Path p)"
  with dfs_total [OF assms, of start goal] show "simple_path graph start goal p" by auto
next
  assume "iddfs graph start goal max_depth = Path p"
  from iddfs_sound [OF this] show "simple_path graph start goal p"
    by (simp add: simple_path_def)
next
  assume "best_first_search ops graph cities start goal = Some (Inr (Path p))"
  with best_first_total [OF assms, of ops cities start goal]
  show "simple_path graph start goal p" by auto
next
  assume "a_star ops graph cities start goal = Some (Inr (Path p))"
  with a_star_total [OF assms, of ops cities start goal]
  show "simple_path graph start goal p" by auto
qed

theorem returned_path_is_simple_witness:
  "finite (dom line3) \<and>
   bfs line3 ''A'' ''C'' = Some (Path [''A'', ''B'', ''C'']) \<and>
   dfs line3 ''A'' ''C'' = Some (Path [''A'', ''B'', ''C'']) \<and>
   iddfs line3 ''A'' ''C'' default_max_depth = Path [''A'', ''B'', ''C''] \<and>
   best_first_search real_ops line3 cities3 ''A'' ''C'' = Some (Inr (Path [''A'', ''B'', ''C''])) \<and>
   a_star real_ops line3 cities3 ''A'' ''C'' = Some (Inr (Path [''A'', ''B'', ''C''])) \<and>
   simple_path line3 ''A'' ''C'' [''A'', ''B'', ''C'']"
  using returned_path_is_simple [OF line3_finite, of "''A''" "''C''" "[''A'', ''B'', ''C'']"
      default_max_depth real_ops cities3]
  by (simp add: line3_finite bfs_line3 dfs_line3 iddfs_line3 best_first_line3 a_star_line3)

section \<open>Iterative deepening ends\<close>

text \<open>
  The recursion of \<^verbatim>\<open>dls\<close> ends on every graph: with enough fuel, the function that
  counts its calls and iterations returns, and it returns the value of \<open>dls\<close>. The depth
  goes down by one in each recursive call, and a list of neighbours is finite.
\<close>

lemma dls_fuel_complete:
  "\<exists>f. \<forall>f' \<ge> f. dls_fuel f' g goal node path d = Some (dls g goal node path d)"
  "\<exists>f. \<forall>f' \<ge> f. dls_for_fuel f' g goal nbrs path (Suc d) = Some (dls_for g goal nbrs path d)"
proof (induction g goal node path d and g goal nbrs path d rule: dls_dls_for.induct)
  case (1 graph goal node path)
  have "\<forall>f' \<ge> Suc 0. dls_fuel f' graph goal node path 0 = Some (dls graph goal node path 0)"
  proof (intro allI impI)
    fix f' :: nat assume "Suc 0 \<le> f'"
    then obtain k where "f' = Suc k" by (auto dest: Suc_le_D)
    then show "dls_fuel f' graph goal node path 0 = Some (dls graph goal node path 0)" by simp
  qed
  then show ?case ..
next
  case (2 graph goal node path d)
  show ?case
  proof (cases "node = goal")
    case True
    have "\<forall>f' \<ge> Suc 0. dls_fuel f' graph goal node path (Suc d) =
            Some (dls graph goal node path (Suc d))"
    proof (intro allI impI)
      fix f' :: nat assume "Suc 0 \<le> f'"
      then obtain k where "f' = Suc k" by (auto dest: Suc_le_D)
      with True show "dls_fuel f' graph goal node path (Suc d) =
            Some (dls graph goal node path (Suc d))" by simp
    qed
    then show ?thesis ..
  next
    case False
    from 2 [OF False] obtain f0 where f0: "\<forall>f' \<ge> f0.
        dls_for_fuel f' graph goal (graph_get graph node) path (Suc d) =
        Some (dls_for graph goal (graph_get graph node) path d)" by blast
    have "\<forall>f' \<ge> Suc f0. dls_fuel f' graph goal node path (Suc d) =
            Some (dls graph goal node path (Suc d))"
    proof (intro allI impI)
      fix f' :: nat assume "Suc f0 \<le> f'"
      then obtain k where k: "f' = Suc k" "f0 \<le> k" by (auto dest: Suc_le_D)
      with f0 have "dls_for_fuel k graph goal (graph_get graph node) path (Suc d) =
        Some (dls_for graph goal (graph_get graph node) path d)" by blast
      with k False show "dls_fuel f' graph goal node path (Suc d) =
            Some (dls graph goal node path (Suc d))" by simp
    qed
    then show ?thesis ..
  qed
next
  case (3 graph goal path d)
  have "\<forall>f' \<ge> Suc 0. dls_for_fuel f' graph goal [] path (Suc d) =
          Some (dls_for graph goal [] path d)"
  proof (intro allI impI)
    fix f' :: nat assume "Suc 0 \<le> f'"
    then obtain k where "f' = Suc k" by (auto dest: Suc_le_D)
    then show "dls_for_fuel f' graph goal [] path (Suc d) = Some (dls_for graph goal [] path d)"
      by simp
  qed
  then show ?case ..
next
  case (4 graph goal neighbor rest path d)
  show ?case
  proof (cases "neighbor \<in> set path")
    case True
    then have "\<not> neighbor \<notin> set path" by simp
    from 4(3) [OF this] obtain f0 where f0: "\<forall>f' \<ge> f0.
        dls_for_fuel f' graph goal rest path (Suc d) = Some (dls_for graph goal rest path d)"
      by blast
    have "\<forall>f' \<ge> Suc f0. dls_for_fuel f' graph goal (neighbor # rest) path (Suc d) =
            Some (dls_for graph goal (neighbor # rest) path d)"
    proof (intro allI impI)
      fix f' :: nat assume "Suc f0 \<le> f'"
      then obtain k where k: "f' = Suc k" "f0 \<le> k" by (auto dest: Suc_le_D)
      with f0 have "dls_for_fuel k graph goal rest path (Suc d) =
          Some (dls_for graph goal rest path d)" by blast
      with k True show "dls_for_fuel f' graph goal (neighbor # rest) path (Suc d) =
            Some (dls_for graph goal (neighbor # rest) path d)" by simp
    qed
    then show ?thesis ..
  next
    case False
    from 4(1) [OF False] obtain f1 where f1: "\<forall>f' \<ge> f1.
        dls_fuel f' graph goal neighbor (path @ [neighbor]) d =
        Some (dls graph goal neighbor (path @ [neighbor]) d)" by blast
    show ?thesis
    proof (cases "truthy (dls graph goal neighbor (path @ [neighbor]) d)")
      case True
      have "\<forall>f' \<ge> Suc f1. dls_for_fuel f' graph goal (neighbor # rest) path (Suc d) =
              Some (dls_for graph goal (neighbor # rest) path d)"
      proof (intro allI impI)
        fix f' :: nat assume "Suc f1 \<le> f'"
        then obtain k where k: "f' = Suc k" "f1 \<le> k" by (auto dest: Suc_le_D)
        with f1 have "dls_fuel k graph goal neighbor (path @ [neighbor]) d =
          Some (dls graph goal neighbor (path @ [neighbor]) d)" by blast
        with k False True show "dls_for_fuel f' graph goal (neighbor # rest) path (Suc d) =
              Some (dls_for graph goal (neighbor # rest) path d)" by (simp add: Let_def)
      qed
      then show ?thesis ..
    next
      case nt: False
      from 4(2) [OF False refl nt] obtain f2 where f2: "\<forall>f' \<ge> f2.
          dls_for_fuel f' graph goal rest path (Suc d) = Some (dls_for graph goal rest path d)"
        by blast
      have "\<forall>f' \<ge> Suc (max f1 f2). dls_for_fuel f' graph goal (neighbor # rest) path (Suc d) =
              Some (dls_for graph goal (neighbor # rest) path d)"
      proof (intro allI impI)
        fix f' :: nat assume "Suc (max f1 f2) \<le> f'"
        then obtain k where k: "f' = Suc k" "f1 \<le> k" "f2 \<le> k" by (cases f') auto
        with f1 have a: "dls_fuel k graph goal neighbor (path @ [neighbor]) d =
          Some (dls graph goal neighbor (path @ [neighbor]) d)" by blast
        from k f2 have b: "dls_for_fuel k graph goal rest path (Suc d) =
          Some (dls_for graph goal rest path d)" by blast
        from k False nt a b show "dls_for_fuel f' graph goal (neighbor # rest) path (Suc d) =
              Some (dls_for graph goal (neighbor # rest) path d)" by (simp add: Let_def)
      qed
      then show ?thesis ..
    qed
  qed
qed

lemma iddfs_for_fuel_complete:
  "\<exists>f. \<forall>f' \<ge> f. iddfs_for_fuel f' g start goal ds = Some (iddfs_for g start goal ds)"
proof (induction ds)
  case Nil
  have "\<forall>f' \<ge> Suc 0. iddfs_for_fuel f' g start goal [] = Some (iddfs_for g start goal [])"
  proof (intro allI impI)
    fix f' :: nat assume "Suc 0 \<le> f'"
    then obtain k where "f' = Suc k" by (auto dest: Suc_le_D)
    then show "iddfs_for_fuel f' g start goal [] = Some (iddfs_for g start goal [])" by simp
  qed
  then show ?case ..
next
  case (Cons d ds)
  from dls_fuel_complete(1) [of g goal start "[start]" d] obtain f1 where f1: "\<forall>f' \<ge> f1.
      dls_fuel f' g goal start [start] d = Some (dls g goal start [start] d)" by blast
  from Cons obtain f2 where f2: "\<forall>f' \<ge> f2.
      iddfs_for_fuel f' g start goal ds = Some (iddfs_for g start goal ds)" by blast
  have "\<forall>f' \<ge> Suc (max f1 f2).
      iddfs_for_fuel f' g start goal (d # ds) = Some (iddfs_for g start goal (d # ds))"
  proof (intro allI impI)
    fix f' :: nat assume "Suc (max f1 f2) \<le> f'"
    then obtain k where k: "f' = Suc k" "f1 \<le> k" "f2 \<le> k" by (cases f') auto
    with f1 have a: "dls_fuel k g goal start [start] d = Some (dls g goal start [start] d)"
      by blast
    from k f2 have b: "iddfs_for_fuel k g start goal ds = Some (iddfs_for g start goal ds)"
      by blast
    from k a b show "iddfs_for_fuel f' g start goal (d # ds) = Some (iddfs_for g start goal (d # ds))"
      by (simp add: Let_def)
  qed
  then show ?case ..
qed

lemma iddfs_fuel_complete:
  "\<exists>fuel. iddfs_fuel fuel g start goal max_depth = Some (iddfs g start goal max_depth)"
proof -
  from iddfs_for_fuel_complete [of g start goal "[0..<nat max_depth]"]
  obtain f where "\<forall>f' \<ge> f. iddfs_for_fuel f' g start goal [0..<nat max_depth] =
      Some (iddfs_for g start goal [0..<nat max_depth])" by blast
  then have "iddfs_fuel f g start goal max_depth = Some (iddfs g start goal max_depth)"
    by (simp add: iddfs_fuel_def iddfs_def)
  then show ?thesis ..
qed

section \<open>The log of the evaluations of the heuristic\<close>

lemma log_ok_refl: "log_ok ops cities goal evals evals (Inr x)"
  by (simp add: log_ok_def)

lemma log_ok_error:
  "heuristic ops cities goal n = Inl e \<Longrightarrow> log_ok ops cities goal evals (evals @ [n]) (Inl e)"
  by (auto simp: log_ok_def)

lemma log_ok_snoc:
  assumes "heuristic ops cities goal n = Inr h" "log_ok ops cities goal (evals @ [n]) evals' r"
  shows "log_ok ops cities goal evals evals' r"
  using assms unfolding log_ok_def by auto

lemma log_ok_trans:
  assumes "log_ok ops cities goal evals evals1 (Inr x)" "log_ok ops cities goal evals1 evals' r"
  shows "log_ok ops cities goal evals evals' r"
  unfolding log_ok_def
proof (intro conjI ballI)
  from assms show "set evals \<subseteq> set evals'" unfolding log_ok_def by blast
next
  fix c assume "c \<in> set evals'"
  with assms(2) have "c \<in> set evals1 \<or> (\<forall>e. heuristic ops cities goal c = Inl e \<longrightarrow> r = Inl e)"
    unfolding log_ok_def by blast
  then show "c \<in> set evals \<or> (\<forall>e. heuristic ops cities goal c = Inl e \<longrightarrow> r = Inl e)"
  proof
    assume "c \<in> set evals1"
    with assms(1) have "c \<in> set evals \<or> (\<forall>e. heuristic ops cities goal c \<noteq> Inl e)"
      unfolding log_ok_def by auto
    then show ?thesis by auto
  next
    assume "\<forall>e. heuristic ops cities goal c = Inl e \<longrightarrow> r = Inl e"
    then show ?thesis ..
  qed
next
  from assms(2) show "\<forall>e. r = Inl e \<longrightarrow> (\<exists>c \<in> set evals'. heuristic ops cities goal c = Inl e)"
    unfolding log_ok_def by blast
qed

lemma log_ok_subset: "log_ok ops cities goal evals evals' r \<Longrightarrow> set evals \<subseteq> set evals'"
  unfolding log_ok_def by blast

lemma log_ok_final:
  assumes "log_ok ops cities goal evals evals' r"
    and "\<forall>c \<in> set evals. heuristic_defined ops cities goal c"
  shows "(\<forall>c \<in> set evals'. \<forall>e. heuristic ops cities goal c = Inl e \<longrightarrow> r = Inl e) \<and>
         (\<forall>e. r = Inl e \<longrightarrow> (\<exists>c \<in> set evals'. heuristic ops cities goal c = Inl e))"
proof (intro conjI ballI allI impI)
  fix c e assume c: "c \<in> set evals'" and e: "heuristic ops cities goal c = Inl e"
  from assms(1) c have "c \<in> set evals \<or> (\<forall>e. heuristic ops cities goal c = Inl e \<longrightarrow> r = Inl e)"
    unfolding log_ok_def by blast
  then show "r = Inl e"
  proof
    assume "c \<in> set evals"
    with assms(2) have "heuristic_defined ops cities goal c" by blast
    with e show ?thesis by (simp add: heuristic_defined_def)
  next
    assume "\<forall>e. heuristic ops cities goal c = Inl e \<longrightarrow> r = Inl e"
    with e show ?thesis by blast
  qed
next
  fix e assume "r = Inl e"
  with assms(1) show "\<exists>c \<in> set evals'. heuristic ops cities goal c = Inl e"
    unfolding log_ok_def by blast
qed

lemma best_first_for_log_eq:
  "\<exists>evals'. best_first_for_log ops cities goal path pq evals nbrs =
               (best_first_for ops cities goal path pq nbrs, evals') \<and>
             log_ok ops cities goal evals evals' (best_first_for ops cities goal path pq nbrs) \<and>
             (nbrs \<noteq> [] \<longrightarrow> hd nbrs \<in> set evals')"
proof (induction nbrs arbitrary: pq evals)
  case Nil
  then show ?case by (simp add: log_ok_refl)
next
  case (Cons n nbrs)
  show ?case
  proof (cases "heuristic ops cities goal n")
    case (Inl e)
    then show ?thesis by (simp add: log_ok_error)
  next
    case (Inr h)
    let ?pq = "heappush pq (h, n, path @ [n])"
    from Cons [of ?pq "evals @ [n]"] obtain evals'
      where a: "best_first_for_log ops cities goal path ?pq (evals @ [n]) nbrs =
                  (best_first_for ops cities goal path ?pq nbrs, evals')"
        and b: "log_ok ops cities goal (evals @ [n]) evals'
                  (best_first_for ops cities goal path ?pq nbrs)" by blast
    from log_ok_snoc [OF Inr b]
    have c: "log_ok ops cities goal evals evals' (best_first_for ops cities goal path ?pq nbrs)" .
    from log_ok_subset [OF b] have "n \<in> set evals'" by simp
    with Inr a c show ?thesis by simp
  qed
qed

lemma a_star_for_log_eq:
  "\<exists>evals'. a_star_for_log ops cities goal path cost gs open1 evals nbrs =
               (a_star_for ops cities goal path cost gs open1 nbrs, evals') \<and>
             log_ok ops cities goal evals evals'
               (a_star_for ops cities goal path cost gs open1 nbrs) \<and>
             (nbrs \<noteq> [] \<longrightarrow> hd nbrs \<in> set evals')"
proof (induction nbrs arbitrary: gs open1 evals)
  case Nil
  then show ?case by (simp add: log_ok_refl)
next
  case (Cons n nbrs)
  show ?case
  proof (cases "heuristic ops cities goal n")
    case (Inl e)
    then show ?thesis by (simp add: log_ok_error)
  next
    case (Inr h)
    let ?new = "fadd ops cost h"
    show ?thesis
    proof (cases "case gs n of None \<Rightarrow> True | Some old \<Rightarrow> ?new < old")
      case True
      let ?gs = "gs(n \<mapsto> ?new)"
      let ?op = "heappush open1 (fadd ops ?new h, n, path @ [n], ?new)"
      from Cons [of ?gs ?op "evals @ [n]"] obtain evals'
        where a: "a_star_for_log ops cities goal path cost ?gs ?op (evals @ [n]) nbrs =
                    (a_star_for ops cities goal path cost ?gs ?op nbrs, evals')"
          and b: "log_ok ops cities goal (evals @ [n]) evals'
                    (a_star_for ops cities goal path cost ?gs ?op nbrs)" by blast
      from log_ok_snoc [OF Inr b]
      have c: "log_ok ops cities goal evals evals'
                 (a_star_for ops cities goal path cost ?gs ?op nbrs)" .
      from log_ok_subset [OF b] have "n \<in> set evals'" by simp
      with Inr True a c show ?thesis by (simp add: Let_def)
    next
      case False
      from Cons [of gs open1 "evals @ [n]"] obtain evals'
        where a: "a_star_for_log ops cities goal path cost gs open1 (evals @ [n]) nbrs =
                    (a_star_for ops cities goal path cost gs open1 nbrs, evals')"
          and b: "log_ok ops cities goal (evals @ [n]) evals'
                    (a_star_for ops cities goal path cost gs open1 nbrs)" by blast
      from log_ok_snoc [OF Inr b]
      have c: "log_ok ops cities goal evals evals'
                 (a_star_for ops cities goal path cost gs open1 nbrs)" .
      from log_ok_subset [OF b] have "n \<in> set evals'" by simp
      with Inr False a c show ?thesis by (simp add: Let_def)
    qed
  qed
qed

text \<open>
  The searches with a log return what the searches of the code return, and their log
  satisfies the invariant.
\<close>

lemma best_first_loop_log_total:
  assumes fin: "finite (dom g)"
  shows "\<exists>r evals'. best_first_loop_log ops g cities goal pq V evals = Some (r, evals') \<and>
           best_first_loop ops g cities goal pq V = Some r \<and>
           log_ok ops cities goal evals evals' r"
proof (induction "(card (dom g - V), length pq)" arbitrary: pq V evals rule: less_induct)
  case less
  show ?case
  proof (cases "pq = []")
    case True
    then have "best_first_loop_log ops g cities goal pq V evals = Some (Inr NoPath, evals)"
      by (subst best_first_loop_log.simps) simp
    moreover from True have "best_first_loop ops g cities goal pq V = Some (Inr NoPath)"
      by (subst best_first_loop.simps) simp
    ultimately show ?thesis by (simp add: log_ok_refl)
  next
    case ne: False
    from heappop_eq [OF ne] obtain m where pop: "heappop pq = (m, remove1 m pq)"
      and m_in: "m \<in> set pq" by blast
    obtain h c p where m: "m = (h, c, p)" by (cases m)
    let ?pq1 = "remove1 m pq"
    from m_in have len: "length ?pq1 < length pq" by (rule length_remove1_less)
    show ?thesis
    proof (cases "c = goal")
      case True
      with ne pop m
      have "best_first_loop_log ops g cities goal pq V evals = Some (Inr (Path p), evals)"
        by (subst best_first_loop_log.simps) simp
      moreover from True ne pop m
      have "best_first_loop ops g cities goal pq V = Some (Inr (Path p))"
        by (subst best_first_loop.simps) simp
      ultimately show ?thesis by (simp add: log_ok_refl)
    next
      case False
      show ?thesis
      proof (cases "c \<in> V")
        case True
        with False ne pop m
        have eq: "best_first_loop_log ops g cities goal pq V evals =
                  best_first_loop_log ops g cities goal ?pq1 V evals"
          by (subst best_first_loop_log.simps) simp
        from True False ne pop m
        have eq': "best_first_loop ops g cities goal pq V = best_first_loop ops g cities goal ?pq1 V"
          by (subst best_first_loop.simps) simp
        from len have "(card (dom g - V), length ?pq1) < (card (dom g - V), length pq)"
          by simp
        from less.hyps [OF this, of evals] eq eq' show ?thesis by simp
      next
        case fresh: False
        from best_first_for_log_eq [of ops cities goal p ?pq1 evals "graph_get g c"]
        obtain evals1
          where fl: "best_first_for_log ops cities goal p ?pq1 evals (graph_get g c) =
                       (best_first_for ops cities goal p ?pq1 (graph_get g c), evals1)"
            and ok1: "log_ok ops cities goal evals evals1
                       (best_first_for ops cities goal p ?pq1 (graph_get g c))" by blast
        show ?thesis
        proof (cases "best_first_for ops cities goal p ?pq1 (graph_get g c)")
          case (Inl e)
          with False fresh ne pop m fl
          have "best_first_loop_log ops g cities goal pq V evals = Some (Inl e, evals1)"
            by (subst best_first_loop_log.simps) simp
          moreover from Inl False fresh ne pop m
          have "best_first_loop ops g cities goal pq V = Some (Inl e)"
            by (subst best_first_loop.simps) simp
          moreover from ok1 Inl have "log_ok ops cities goal evals evals1 (Inl e :: error + result)"
            by (simp add: log_ok_def)
          ultimately show ?thesis by blast
        next
          case (Inr pq2)
          with False fresh ne pop m fl
          have eq: "best_first_loop_log ops g cities goal pq V evals =
                    best_first_loop_log ops g cities goal pq2 (insert c V) evals1"
            by (subst best_first_loop_log.simps) simp
          from Inr False fresh ne pop m
          have eq': "best_first_loop ops g cities goal pq V =
                    best_first_loop ops g cities goal pq2 (insert c V)"
            by (subst best_first_loop.simps) simp
          note ents = best_first_for_entries [OF Inr]
          have m': "(card (dom g - insert c V), length pq2) < (card (dom g - V), length pq)"
          proof (cases "c \<in> dom g")
            case True
            from card_unvisited_less [OF fin True fresh] show ?thesis by simp
          next
            case False
            then have "graph_get g c = []" by (rule graph_get_absent)
            with ents have "pq2 = ?pq1" by simp
            with card_unvisited_le [OF fin, of c V] len show ?thesis by simp
          qed
          from less.hyps [OF m', of evals1] obtain r evals'
            where a: "best_first_loop_log ops g cities goal pq2 (insert c V) evals1 = Some (r, evals')"
              and b: "best_first_loop ops g cities goal pq2 (insert c V) = Some r"
              and ok2: "log_ok ops cities goal evals1 evals' r" by blast
          from ok1 Inr have "log_ok ops cities goal evals evals1 (Inr pq2)" by simp
          from log_ok_trans [OF this ok2] have "log_ok ops cities goal evals evals' r" .
          with a b eq eq' show ?thesis by simp
        qed
      qed
    qed
  qed
qed

lemma a_star_loop_log_total:
  assumes fin: "finite (dom g)"
  shows "\<exists>r evals'. a_star_loop_log ops g cities goal os gs V evals = Some (r, evals') \<and>
           a_star_loop ops g cities goal os gs V = Some r \<and>
           log_ok ops cities goal evals evals' r"
proof (induction "(card (dom g - V), length os)" arbitrary: os gs V evals rule: less_induct)
  case less
  show ?case
  proof (cases "os = []")
    case True
    then have "a_star_loop_log ops g cities goal os gs V evals = Some (Inr NoPath, evals)"
      by (subst a_star_loop_log.simps) simp
    moreover from True have "a_star_loop ops g cities goal os gs V = Some (Inr NoPath)"
      by (subst a_star_loop.simps) simp
    ultimately show ?thesis by (simp add: log_ok_refl)
  next
    case ne: False
    from heappop_eq [OF ne] obtain m where pop: "heappop os = (m, remove1 m os)"
      and m_in: "m \<in> set os" by blast
    obtain h c p k where m: "m = (h, c, p, k)" by (cases m)
    let ?os1 = "remove1 m os"
    from m_in have len: "length ?os1 < length os" by (rule length_remove1_less)
    show ?thesis
    proof (cases "c = goal")
      case True
      with ne pop m
      have "a_star_loop_log ops g cities goal os gs V evals = Some (Inr (Path p), evals)"
        by (subst a_star_loop_log.simps) simp
      moreover from True ne pop m
      have "a_star_loop ops g cities goal os gs V = Some (Inr (Path p))"
        by (subst a_star_loop.simps) simp
      ultimately show ?thesis by (simp add: log_ok_refl)
    next
      case False
      show ?thesis
      proof (cases "c \<in> V")
        case True
        with False ne pop m
        have eq: "a_star_loop_log ops g cities goal os gs V evals =
                  a_star_loop_log ops g cities goal ?os1 gs V evals"
          by (subst a_star_loop_log.simps) simp
        from True False ne pop m
        have eq': "a_star_loop ops g cities goal os gs V = a_star_loop ops g cities goal ?os1 gs V"
          by (subst a_star_loop.simps) simp
        from len have "(card (dom g - V), length ?os1) < (card (dom g - V), length os)"
          by simp
        from less.hyps [OF this, of gs evals] eq eq' show ?thesis by simp
      next
        case fresh: False
        from a_star_for_log_eq [of ops cities goal p k gs ?os1 evals "graph_get g c"]
        obtain evals1
          where fl: "a_star_for_log ops cities goal p k gs ?os1 evals (graph_get g c) =
                       (a_star_for ops cities goal p k gs ?os1 (graph_get g c), evals1)"
            and ok1: "log_ok ops cities goal evals evals1
                       (a_star_for ops cities goal p k gs ?os1 (graph_get g c))" by blast
        show ?thesis
        proof (cases "a_star_for ops cities goal p k gs ?os1 (graph_get g c)")
          case (Inl e)
          with False fresh ne pop m fl
          have "a_star_loop_log ops g cities goal os gs V evals = Some (Inl e, evals1)"
            by (subst a_star_loop_log.simps) simp
          moreover from Inl False fresh ne pop m
          have "a_star_loop ops g cities goal os gs V = Some (Inl e)"
            by (subst a_star_loop.simps) simp
          moreover from ok1 Inl have "log_ok ops cities goal evals evals1 (Inl e :: error + result)"
            by (simp add: log_ok_def)
          ultimately show ?thesis by blast
        next
          case (Inr st)
          obtain gs2 os2 where st: "st = (gs2, os2)" by (cases st)
          from Inr st False fresh ne pop m fl
          have eq: "a_star_loop_log ops g cities goal os gs V evals =
                    a_star_loop_log ops g cities goal os2 gs2 (insert c V) evals1"
            by (subst a_star_loop_log.simps) simp
          from Inr st False fresh ne pop m
          have eq': "a_star_loop ops g cities goal os gs V =
                    a_star_loop ops g cities goal os2 gs2 (insert c V)"
            by (subst a_star_loop.simps) simp
          note ents = a_star_for_entries [OF Inr [unfolded st]]
          have m': "(card (dom g - insert c V), length os2) < (card (dom g - V), length os)"
          proof (cases "c \<in> dom g")
            case True
            from card_unvisited_less [OF fin True fresh] show ?thesis by simp
          next
            case False
            then have "graph_get g c = []" by (rule graph_get_absent)
            with ents have "os2 = ?os1" by simp
            with card_unvisited_le [OF fin, of c V] len show ?thesis by simp
          qed
          from less.hyps [OF m', of gs2 evals1] obtain r evals'
            where a: "a_star_loop_log ops g cities goal os2 gs2 (insert c V) evals1 = Some (r, evals')"
              and b: "a_star_loop ops g cities goal os2 gs2 (insert c V) = Some r"
              and ok2: "log_ok ops cities goal evals1 evals' r" by blast
          from ok1 Inr have "log_ok ops cities goal evals evals1 (Inr st)" by simp
          from log_ok_trans [OF this ok2] have "log_ok ops cities goal evals evals' r" .
          with a b eq eq' show ?thesis by simp
        qed
      qed
    qed
  qed
qed

lemma best_first_search_log_total:
  assumes "finite (dom g)"
  shows "\<exists>r evals. best_first_search_log ops g cities start goal = Some (r, evals) \<and>
           best_first_search ops g cities start goal = Some r \<and>
           start \<in> set evals \<and>
           (\<forall>c \<in> set evals. \<forall>e. heuristic ops cities goal c = Inl e \<longrightarrow> r = Inl e) \<and>
           (\<forall>e. r = Inl e \<longrightarrow> (\<exists>c \<in> set evals. heuristic ops cities goal c = Inl e))"
proof (cases "heuristic ops cities goal start")
  case (Inl e)
  then show ?thesis by (simp add: best_first_search_log_def best_first_search_def)
next
  case (Inr h)
  from best_first_loop_log_total [OF assms, of ops cities goal "[(h, start, [start])]" "{}" "[start]"]
  obtain r evals
    where a: "best_first_loop_log ops g cities goal [(h, start, [start])] {} [start] = Some (r, evals)"
      and b: "best_first_loop ops g cities goal [(h, start, [start])] {} = Some r"
      and ok: "log_ok ops cities goal [start] evals r" by blast
  from Inr have "\<forall>c \<in> set [start]. heuristic_defined ops cities goal c"
    by (simp add: heuristic_defined_def)
  note fin = log_ok_final [OF ok this]
  from log_ok_subset [OF ok] have "start \<in> set evals" by simp
  with Inr a b fin show ?thesis by (simp add: best_first_search_log_def best_first_search_def)
qed

lemma a_star_log_total:
  assumes "finite (dom g)"
  shows "\<exists>r evals. a_star_log ops g cities start goal = Some (r, evals) \<and>
           a_star ops g cities start goal = Some r \<and>
           (\<forall>n rest. start \<noteq> goal \<and> graph_get g start = n # rest \<longrightarrow> n \<in> set evals) \<and>
           (\<forall>c \<in> set evals. \<forall>e. heuristic ops cities goal c = Inl e \<longrightarrow> r = Inl e) \<and>
           (\<forall>e. r = Inl e \<longrightarrow> (\<exists>c \<in> set evals. heuristic ops cities goal c = Inl e))"
proof -
  let ?os = "[(fzero ops, start, [start], fzero ops)]"
  let ?gs = "[start \<mapsto> fzero ops]"
  from a_star_loop_log_total [OF assms, of ops cities goal ?os ?gs "{}" "[]"]
  obtain r evals
    where a: "a_star_loop_log ops g cities goal ?os ?gs {} [] = Some (r, evals)"
      and b: "a_star_loop ops g cities goal ?os ?gs {} = Some r"
      and ok: "log_ok ops cities goal [] evals r" by blast
  have "\<forall>c \<in> set []. heuristic_defined ops cities goal c" by simp
  note fin = log_ok_final [OF ok this]
  have first: "n \<in> set evals" if ne: "start \<noteq> goal" and nb: "graph_get g start = n # rest"
    for n rest
  proof -
    from a_star_for_log_eq [of ops cities goal "[start]" "fzero ops" ?gs "[]" "[]" "graph_get g start"]
    obtain evals1
      where fl: "a_star_for_log ops cities goal [start] (fzero ops) ?gs [] [] (graph_get g start) =
                   (a_star_for ops cities goal [start] (fzero ops) ?gs [] (graph_get g start), evals1)"
        and hd: "graph_get g start \<noteq> [] \<longrightarrow> hd (graph_get g start) \<in> set evals1" by blast
    from hd nb have n: "n \<in> set evals1" by simp
    show ?thesis
    proof (cases "a_star_for ops cities goal [start] (fzero ops) ?gs [] (graph_get g start)")
      case (Inl e)
      with ne fl have "a_star_loop_log ops g cities goal ?os ?gs {} [] = Some (Inl e, evals1)"
        by (subst a_star_loop_log.simps) (simp add: heappop_single)
      with a n show ?thesis by simp
    next
      case (Inr st)
      obtain gs2 os2 where st: "st = (gs2, os2)" by (cases st)
      from Inr st ne fl have eq: "a_star_loop_log ops g cities goal ?os ?gs {} [] =
          a_star_loop_log ops g cities goal os2 gs2 {start} evals1"
        by (subst a_star_loop_log.simps) (simp add: heappop_single)
      from a_star_loop_log_total [OF assms, of ops cities goal os2 gs2 "{start}" evals1]
      obtain r2 evals2
        where a2: "a_star_loop_log ops g cities goal os2 gs2 {start} evals1 = Some (r2, evals2)"
          and ok2: "log_ok ops cities goal evals1 evals2 r2" by blast
      from a eq a2 have "evals = evals2" by simp
      with log_ok_subset [OF ok2] n show ?thesis by blast
    qed
  qed
  from a b fin first show ?thesis unfolding a_star_log_def a_star_def by blast
qed

section \<open>Termination\<close>

text \<open>
  Claim C8, as amended. On a graph with finitely many keys, with or without cycles, each
  search ends. The loops of \<open>bfs\<close> and \<open>dfs\<close> end with a path or \<^verbatim>\<open>None\<close>. The
  recursion of \<open>iddfs\<close> ends: with enough fuel, the function that counts its calls and
  iterations returns a path or \<^verbatim>\<open>None\<close>. The two heuristic searches end too; they end
  with a path or \<^verbatim>\<open>None\<close> exactly when every evaluation of the heuristic that the run
  makes has a value, that is, when every city on which the run calls the heuristic
  has coordinates, the goal has coordinates, and no square overflows; otherwise they
  end with the exception of the evaluation that failed.
\<close>

theorem searches_terminate:
  assumes "finite (dom graph)"
  shows "(\<exists>r. bfs graph start goal = Some r) \<and>
         (\<exists>r. dfs graph start goal = Some r) \<and>
         (\<exists>fuel. iddfs_fuel fuel graph start goal max_depth =
                    Some (iddfs graph start goal max_depth)) \<and>
         (\<exists>r evals. best_first_search_log ops graph cities start goal = Some (r, evals) \<and>
            best_first_search ops graph cities start goal = Some r \<and>
            ((\<exists>x. r = Inr x) \<longleftrightarrow> (\<forall>c \<in> set evals. heuristic_defined ops cities goal c))) \<and>
         (\<exists>r evals. a_star_log ops graph cities start goal = Some (r, evals) \<and>
            a_star ops graph cities start goal = Some r \<and>
            ((\<exists>x. r = Inr x) \<longleftrightarrow> (\<forall>c \<in> set evals. heuristic_defined ops cities goal c)))"
proof (intro conjI)
  from bfs_total [OF assms, of start goal] show "\<exists>r. bfs graph start goal = Some r" by blast
next
  from dfs_total [OF assms, of start goal] show "\<exists>r. dfs graph start goal = Some r" by blast
next
  show "\<exists>fuel. iddfs_fuel fuel graph start goal max_depth = Some (iddfs graph start goal max_depth)"
    by (rule iddfs_fuel_complete)
next
  from best_first_search_log_total [OF assms, of ops cities start goal]
  obtain r evals
    where a: "best_first_search_log ops graph cities start goal = Some (r, evals)"
      and b: "best_first_search ops graph cities start goal = Some r"
      and c: "\<forall>c \<in> set evals. \<forall>e. heuristic ops cities goal c = Inl e \<longrightarrow> r = Inl e"
      and d: "\<forall>e. r = Inl e \<longrightarrow> (\<exists>c \<in> set evals. heuristic ops cities goal c = Inl e)"
    by blast
  have "(\<exists>x. r = Inr x) \<longleftrightarrow> (\<forall>c \<in> set evals. heuristic_defined ops cities goal c)"
  proof
    assume "\<exists>x. r = Inr x"
    then obtain x where x: "r = Inr x" ..
    show "\<forall>c \<in> set evals. heuristic_defined ops cities goal c"
    proof
      fix k assume "k \<in> set evals"
      with c x have "\<forall>e. heuristic ops cities goal k \<noteq> Inl e" by auto
      then show "heuristic_defined ops cities goal k"
        unfolding heuristic_defined_def by (cases "heuristic ops cities goal k") simp_all
    qed
  next
    assume all: "\<forall>c \<in> set evals. heuristic_defined ops cities goal c"
    show "\<exists>x. r = Inr x"
    proof (cases r)
      case (Inl e)
      with d obtain k where "k \<in> set evals" "heuristic ops cities goal k = Inl e" by blast
      with all show ?thesis by (auto simp: heuristic_defined_def)
    next
      case (Inr x)
      then show ?thesis ..
    qed
  qed
  with a b show "\<exists>r evals. best_first_search_log ops graph cities start goal = Some (r, evals) \<and>
            best_first_search ops graph cities start goal = Some r \<and>
            ((\<exists>x. r = Inr x) \<longleftrightarrow> (\<forall>c \<in> set evals. heuristic_defined ops cities goal c))"
    by blast
next
  from a_star_log_total [OF assms, of ops cities start goal]
  obtain r evals
    where a: "a_star_log ops graph cities start goal = Some (r, evals)"
      and b: "a_star ops graph cities start goal = Some r"
      and c: "\<forall>c \<in> set evals. \<forall>e. heuristic ops cities goal c = Inl e \<longrightarrow> r = Inl e"
      and d: "\<forall>e. r = Inl e \<longrightarrow> (\<exists>c \<in> set evals. heuristic ops cities goal c = Inl e)"
    by blast
  have "(\<exists>x. r = Inr x) \<longleftrightarrow> (\<forall>c \<in> set evals. heuristic_defined ops cities goal c)"
  proof
    assume "\<exists>x. r = Inr x"
    then obtain x where x: "r = Inr x" ..
    show "\<forall>c \<in> set evals. heuristic_defined ops cities goal c"
    proof
      fix k assume "k \<in> set evals"
      with c x have "\<forall>e. heuristic ops cities goal k \<noteq> Inl e" by auto
      then show "heuristic_defined ops cities goal k"
        unfolding heuristic_defined_def by (cases "heuristic ops cities goal k") simp_all
    qed
  next
    assume all: "\<forall>c \<in> set evals. heuristic_defined ops cities goal c"
    show "\<exists>x. r = Inr x"
    proof (cases r)
      case (Inl e)
      with d obtain k where "k \<in> set evals" "heuristic ops cities goal k = Inl e" by blast
      with all show ?thesis by (auto simp: heuristic_defined_def)
    next
      case (Inr x)
      then show ?thesis ..
    qed
  qed
  with a b show "\<exists>r evals. a_star_log ops graph cities start goal = Some (r, evals) \<and>
            a_star ops graph cities start goal = Some r \<and>
            ((\<exists>x. r = Inr x) \<longleftrightarrow> (\<forall>c \<in> set evals. heuristic_defined ops cities goal c))"
    by blast
qed

text \<open>
  The theorem on the cycle A-B-C-D-A from A to C, where every search returns a path,
  and on the graph of two parts from A to B, where the cities X and Y, which no search
  reaches, have no coordinates.
\<close>

theorem searches_terminate_witness:
  "finite (dom square) \<and>
   bfs square ''A'' ''C'' = Some (Path [''A'', ''B'', ''C'']) \<and>
   dfs square ''A'' ''C'' = Some (Path [''A'', ''D'', ''C'']) \<and>
   (\<exists>fuel. iddfs_fuel fuel square ''A'' ''C'' default_max_depth = Some (Path [''A'', ''B'', ''C''])) \<and>
   best_first_search_log real_ops square cities4 ''A'' ''C'' =
     Some (Inr (Path [''A'', ''B'', ''C'']), [''A'', ''B'', ''D'', ''A'', ''C'']) \<and>
   best_first_search real_ops square cities4 ''A'' ''C'' = Some (Inr (Path [''A'', ''B'', ''C''])) \<and>
   a_star_log real_ops square cities4 ''A'' ''C'' =
     Some (Inr (Path [''A'', ''B'', ''C'']), [''B'', ''D'', ''A'', ''C'']) \<and>
   a_star real_ops square cities4 ''A'' ''C'' = Some (Inr (Path [''A'', ''B'', ''C''])) \<and>
   finite (dom two_parts) \<and> ''X'' \<notin> dom cities_AB \<and> ''Y'' \<notin> dom cities_AB \<and>
   best_first_search_log real_ops two_parts cities_AB ''A'' ''B'' =
     Some (Inr (Path [''A'', ''B'']), [''A'', ''B'']) \<and>
   best_first_search real_ops two_parts cities_AB ''A'' ''B'' = Some (Inr (Path [''A'', ''B''])) \<and>
   a_star_log real_ops two_parts cities_AB ''A'' ''B'' = Some (Inr (Path [''A'', ''B'']), [''B'']) \<and>
   a_star real_ops two_parts cities_AB ''A'' ''B'' = Some (Inr (Path [''A'', ''B'']))"
proof -
  have "''X'' \<notin> dom cities_AB" "''Y'' \<notin> dom cities_AB"
    by (simp_all add: cities_AB_def)
  with searches_terminate [OF square_finite, of "''A''" "''C''" default_max_depth real_ops cities4]
    searches_terminate [OF two_parts_finite, of "''A''" "''B''" default_max_depth real_ops cities_AB]
  show ?thesis
    by (simp add: square_finite two_parts_finite bfs_square dfs_square iddfs_square
        best_first_log_square a_star_log_square best_first_log_two_parts a_star_log_two_parts)
qed

text \<open>
  The claim as it was stated has the heuristic searches return a path or \<^verbatim>\<open>None\<close> as
  soon as every city that the run meets has coordinates. Coordinates are not enough: on
  the line A - B - C with the city C very far away, every city has coordinates and both
  searches end with \<^verbatim>\<open>OverflowError\<close>, raised by the square in the first evaluation of
  the heuristic.
\<close>

theorem searches_terminate_counterexample:
  "dom line3 = {''A'', ''B'', ''C''} \<and> dom cities_wide = {''A'', ''B'', ''C''} \<and>
   best_first_search real_ops line3 cities_wide ''A'' ''C'' = Some (Inl OverflowError) \<and>
   a_star real_ops line3 cities_wide ''A'' ''C'' = Some (Inl OverflowError)"
proof -
  have "dom cities_wide = {''A'', ''B'', ''C''}" by (auto simp: cities_wide_def)
  then show ?thesis by (simp add: line3_dom best_first_wide a_star_wide)
qed

section \<open>An endpoint that is not in the graph\<close>

lemma no_walk_from_absent:
  assumes "start \<noteq> goal" "start \<notin> dom g"
  shows "\<not> simple_path g start goal p"
proof
  assume "simple_path g start goal p"
  then have w: "walk g p" and h: "hd p = start" and l: "last p = goal"
    unfolding simple_path_def by blast+
  from h l assms(1) have "hd p \<noteq> last p" by simp
  from walk_first_edge [OF w this] h assms(2) show False by simp
qed

lemma symmetric_absent_unlisted:
  assumes "symmetric g" "goal \<notin> dom g"
  shows "goal \<notin> set (graph_get g c)"
proof
  assume "goal \<in> set (graph_get g c)"
  with assms(1) have "c \<in> set (graph_get g goal)" unfolding symmetric_def by blast
  then have "graph_get g goal \<noteq> []" by auto
  then have "goal \<in> dom g" using graph_get_absent [of goal g] by blast
  with assms(2) show False by blast
qed

lemma no_walk_to_absent:
  assumes "symmetric g" "start \<noteq> goal" "goal \<notin> dom g"
  shows "\<not> simple_path g start goal p"
proof
  assume "simple_path g start goal p"
  then have w: "walk g p" and h: "hd p = start" and l: "last p = goal"
    unfolding simple_path_def by blast+
  from h l assms(2) have "hd p \<noteq> last p" by simp
  from walk_last_edge [OF w this] l obtain x where "goal \<in> set (graph_get g x)" by auto
  with symmetric_absent_unlisted [OF assms(1,3), of x] show False by blast
qed

lemma bfs_absent_start:
  assumes "start \<noteq> goal" "start \<notin> dom g"
  shows "bfs g start goal = Some NoPath"
proof -
  from assms(2) have e: "graph_get g start = []" by (rule graph_get_absent)
  with assms(1) have "bfs_loop g goal [(start, [start])] {} = bfs_loop g goal [] {start}"
    by (subst bfs_loop.simps) simp
  also have "\<dots> = Some NoPath" by (subst bfs_loop.simps) simp
  finally show ?thesis by (simp add: bfs_def)
qed

lemma dfs_absent_start:
  assumes "start \<noteq> goal" "start \<notin> dom g"
  shows "dfs g start goal = Some NoPath"
proof -
  from assms(2) have e: "graph_get g start = []" by (rule graph_get_absent)
  with assms(1) have "dfs_loop g goal [(start, [start])] {} = dfs_loop g goal [] {start}"
    by (subst dfs_loop.simps) simp
  also have "\<dots> = Some NoPath" by (subst dfs_loop.simps) simp
  finally show ?thesis by (simp add: dfs_def)
qed

lemma iddfs_no_path:
  assumes "\<And>p. \<not> simple_path g start goal p"
  shows "iddfs g start goal max_depth = NoPath"
proof (cases "iddfs g start goal max_depth")
  case (Path p)
  from iddfs_sound [OF Path] have "simple_path g start goal p"
    by (simp add: simple_path_def)
  with assms show ?thesis by blast
next
  case NoPath
  then show ?thesis .
qed

lemma best_first_absent_start:
  assumes "start \<noteq> goal" "start \<notin> dom g" "heuristic_defined ops cities goal start"
  shows "best_first_search ops g cities start goal = Some (Inr NoPath)"
proof -
  from assms(3) obtain h where h: "heuristic ops cities goal start = Inr h"
    unfolding heuristic_defined_iff ..
  from assms(2) have e: "graph_get g start = []" by (rule graph_get_absent)
  with assms(1) have "best_first_loop ops g cities goal [(h, start, [start])] {} =
      best_first_loop ops g cities goal [] {start}"
    by (subst best_first_loop.simps) (simp add: heappop_single)
  also have "\<dots> = Some (Inr NoPath)" by (subst best_first_loop.simps) simp
  finally show ?thesis using h by (simp add: best_first_search_def)
qed

lemma a_star_absent_start:
  assumes "start \<noteq> goal" "start \<notin> dom g"
  shows "a_star ops g cities start goal = Some (Inr NoPath)"
proof -
  from assms(2) have e: "graph_get g start = []" by (rule graph_get_absent)
  with assms(1)
  have "a_star_loop ops g cities goal [(fzero ops, start, [start], fzero ops)]
          [start \<mapsto> fzero ops] {} =
        a_star_loop ops g cities goal [] [start \<mapsto> fzero ops] {start}"
    by (subst a_star_loop.simps) (simp add: heappop_single)
  also have "\<dots> = Some (Inr NoPath)" by (subst a_star_loop.simps) simp
  finally show ?thesis by (simp add: a_star_def)
qed

lemma bfs_no_path:
  assumes "finite (dom g)" "\<And>p. \<not> simple_path g start goal p"
  shows "bfs g start goal = Some NoPath"
proof -
  from bfs_total [OF assms(1), of start goal] obtain r
    where r: "bfs g start goal = Some r"
      and s: "\<forall>p. r = Path p \<longrightarrow> simple_path g start goal p" by blast
  from s assms(2) have "r = NoPath" by (cases r) auto
  with r show ?thesis by simp
qed

lemma dfs_no_path:
  assumes "finite (dom g)" "\<And>p. \<not> simple_path g start goal p"
  shows "dfs g start goal = Some NoPath"
proof -
  from dfs_total [OF assms(1), of start goal] obtain r
    where r: "dfs g start goal = Some r"
      and s: "\<forall>p. r = Path p \<longrightarrow> simple_path g start goal p" by blast
  from s assms(2) have "r = NoPath" by (cases r) auto
  with r show ?thesis by simp
qed

lemma best_first_no_path:
  assumes "finite (dom g)" "\<And>p. \<not> simple_path g start goal p"
    "reachable_defined ops g cities start goal"
  shows "best_first_search ops g cities start goal = Some (Inr NoPath)"
proof -
  from best_first_total [OF assms(1), of ops cities start goal] assms(3) obtain r
    where r: "best_first_search ops g cities start goal = Some r"
      and s: "\<forall>p. r = Inr (Path p) \<longrightarrow> simple_path g start goal p"
      and e: "\<forall>e. r \<noteq> Inl e" by blast
  from e obtain x where x: "r = Inr x" by (cases r) auto
  with s assms(2) have "x = NoPath" by (cases x) auto
  with r x show ?thesis by simp
qed

lemma a_star_no_path:
  assumes "finite (dom g)" "\<And>p. \<not> simple_path g start goal p"
    "reachable_defined ops g cities start goal"
  shows "a_star ops g cities start goal = Some (Inr NoPath)"
proof -
  from a_star_total [OF assms(1), of ops cities start goal] assms(3) obtain r
    where r: "a_star ops g cities start goal = Some r"
      and s: "\<forall>p. r = Inr (Path p) \<longrightarrow> simple_path g start goal p"
      and e: "\<forall>e. r \<noteq> Inl e" by blast
  from e obtain x where x: "r = Inr x" by (cases r) auto
  with s assms(2) have "x = NoPath" by (cases x) auto
  with r x show ?thesis by simp
qed

text \<open>
  Claim C4, as amended. Let the start differ from the goal. When the start is not a key
  of the graph, whatever the graph is, the uninformed searches and \<open>a_star\<close> return
  \<^verbatim>\<open>None\<close>, and so does \<open>best_first_search\<close> when the heuristic of the start can be
  computed (the start and the goal have coordinates and no square overflows). When the
  goal is not a key of a symmetric graph with finitely many keys, the uninformed
  searches return \<^verbatim>\<open>None\<close>, and so do the heuristic searches when the heuristic can be
  computed for the start and for every city that a walk from the start reaches. None of
  them raises.
\<close>

theorem absent_endpoint_not_found:
  assumes "start \<noteq> goal"
  shows "(start \<notin> dom graph \<longrightarrow>
            bfs graph start goal = Some NoPath \<and>
            dfs graph start goal = Some NoPath \<and>
            iddfs graph start goal max_depth = NoPath \<and>
            a_star ops graph cities start goal = Some (Inr NoPath) \<and>
            (heuristic_defined ops cities goal start \<longrightarrow>
               best_first_search ops graph cities start goal = Some (Inr NoPath))) \<and>
         (goal \<notin> dom graph \<and> symmetric graph \<and> finite (dom graph) \<longrightarrow>
            bfs graph start goal = Some NoPath \<and>
            dfs graph start goal = Some NoPath \<and>
            iddfs graph start goal max_depth = NoPath \<and>
            (reachable_defined ops graph cities start goal \<longrightarrow>
               best_first_search ops graph cities start goal = Some (Inr NoPath) \<and>
               a_star ops graph cities start goal = Some (Inr NoPath)))"
proof (intro conjI impI)
  assume "start \<notin> dom graph"
  with assms show "bfs graph start goal = Some NoPath" by (rule bfs_absent_start)
next
  assume "start \<notin> dom graph"
  with assms show "dfs graph start goal = Some NoPath" by (rule dfs_absent_start)
next
  assume "start \<notin> dom graph"
  with assms have "\<And>p. \<not> simple_path graph start goal p" by (rule no_walk_from_absent)
  then show "iddfs graph start goal max_depth = NoPath" by (rule iddfs_no_path)
next
  assume "start \<notin> dom graph"
  with assms show "a_star ops graph cities start goal = Some (Inr NoPath)"
    by (rule a_star_absent_start)
next
  assume "start \<notin> dom graph" "heuristic_defined ops cities goal start"
  with assms show "best_first_search ops graph cities start goal = Some (Inr NoPath)"
    by (rule best_first_absent_start)
next
  assume a: "goal \<notin> dom graph \<and> symmetric graph \<and> finite (dom graph)"
  with assms have "\<And>p. \<not> simple_path graph start goal p" using no_walk_to_absent by blast
  with a show "bfs graph start goal = Some NoPath" using bfs_no_path by blast
next
  assume a: "goal \<notin> dom graph \<and> symmetric graph \<and> finite (dom graph)"
  with assms have "\<And>p. \<not> simple_path graph start goal p" using no_walk_to_absent by blast
  with a show "dfs graph start goal = Some NoPath" using dfs_no_path by blast
next
  assume a: "goal \<notin> dom graph \<and> symmetric graph \<and> finite (dom graph)"
  with assms have "\<And>p. \<not> simple_path graph start goal p" using no_walk_to_absent by blast
  then show "iddfs graph start goal max_depth = NoPath" by (rule iddfs_no_path)
next
  assume a: "goal \<notin> dom graph \<and> symmetric graph \<and> finite (dom graph)"
    and r: "reachable_defined ops graph cities start goal"
  from a assms have "\<And>p. \<not> simple_path graph start goal p" using no_walk_to_absent by blast
  with a r show "best_first_search ops graph cities start goal = Some (Inr NoPath)"
    using best_first_no_path by blast
next
  assume a: "goal \<notin> dom graph \<and> symmetric graph \<and> finite (dom graph)"
    and r: "reachable_defined ops graph cities start goal"
  from a assms have "\<And>p. \<not> simple_path graph start goal p" using no_walk_to_absent by blast
  with a r show "a_star ops graph cities start goal = Some (Inr NoPath)"
    using a_star_no_path by blast
qed

text \<open>
  The theorem on the line A - B - C and the city Z, which is not in the graph: from Z to
  A, and from A to Z.
\<close>

theorem absent_endpoint_not_found_witness:
  "''Z'' \<noteq> ''A'' \<and> ''Z'' \<notin> dom line3 \<and> symmetric line3 \<and> finite (dom line3) \<and>
   heuristic_defined real_ops cities_near ''A'' ''Z'' \<and>
   reachable_defined real_ops line3 cities_near ''A'' ''Z'' \<and>
   bfs line3 ''Z'' ''A'' = Some NoPath \<and>
   dfs line3 ''Z'' ''A'' = Some NoPath \<and>
   iddfs line3 ''Z'' ''A'' default_max_depth = NoPath \<and>
   a_star real_ops line3 cities_near ''Z'' ''A'' = Some (Inr NoPath) \<and>
   best_first_search real_ops line3 cities_near ''Z'' ''A'' = Some (Inr NoPath) \<and>
   bfs line3 ''A'' ''Z'' = Some NoPath \<and>
   dfs line3 ''A'' ''Z'' = Some NoPath \<and>
   iddfs line3 ''A'' ''Z'' default_max_depth = NoPath \<and>
   best_first_search real_ops line3 cities_near ''A'' ''Z'' = Some (Inr NoPath) \<and>
   a_star real_ops line3 cities_near ''A'' ''Z'' = Some (Inr NoPath)"
proof -
  have z: "''Z'' \<notin> dom line3" by (simp add: line3_dom)
  have h: "heuristic_defined real_ops cities_near ''A'' ''Z''"
    by (simp add: heuristic_defined_def real_heuristic cities_near_def)
  have n: "''Z'' \<noteq> ''A''" "''A'' \<noteq> ''Z''" by simp_all
  from absent_endpoint_not_found [OF n(1), where graph = line3 and max_depth = default_max_depth
      and ops = real_ops and cities = cities_near]
    absent_endpoint_not_found [OF n(2), where graph = line3 and max_depth = default_max_depth
      and ops = real_ops and cities = cities_near]
    z h line3_symmetric line3_finite line3_reachable_defined
  show ?thesis by simp
qed

text \<open>
  The claim as it was stated fails in four ways. With the start equal to the goal, a
  city that is not in the graph is found at once. In a graph that is not symmetric, a
  goal without an entry of its own can be listed as a neighbour, and is then found.
  Coordinates for the two endpoints are not enough for the heuristic searches: on the
  line A - B - C with the goal Z, which is not in the graph, \<open>best_first_search\<close> raises
  \<^verbatim>\<open>KeyError\<close> for the neighbour B, which has no coordinates. And coordinates for all
  cities are not enough either: with the goal Z very far away, the square in the
  heuristic of the start raises \<^verbatim>\<open>OverflowError\<close>.
\<close>

theorem absent_endpoint_counterexample:
  "''X'' \<notin> dom (Map.empty :: graph) \<and>
   bfs Map.empty ''X'' ''X'' = Some (Path [''X'']) \<and>
   ''A'' \<noteq> ''B'' \<and> ''B'' \<notin> dom one_way \<and>
   bfs one_way ''A'' ''B'' = Some (Path [''A'', ''B'']) \<and>
   ''A'' \<noteq> ''Z'' \<and> ''Z'' \<notin> dom line3 \<and>
   ''A'' \<in> dom cities_no_B \<and> ''Z'' \<in> dom cities_no_B \<and>
   best_first_search real_ops line3 cities_no_B ''A'' ''Z'' = Some (Inl (KeyError ''B'')) \<and>
   dom cities_far = {''A'', ''B'', ''C'', ''Z''} \<and>
   best_first_search real_ops line3 cities_far ''A'' ''Z'' = Some (Inl OverflowError)"
proof -
  have a: "bfs one_way ''A'' ''B'' = Some (Path [''A'', ''B''])"
    by (simp add: bfs_def bfs_loop.simps one_way_def graph_get_def)
  have b: "best_first_search real_ops line3 cities_no_B ''A'' ''Z'' = Some (Inl (KeyError ''B''))"
    by (simp add: best_first_search_def best_first_loop.simps real_heuristic cities_no_B_def
        line3_get heappop_def heappush_def)
  have c: "best_first_search real_ops line3 cities_far ''A'' ''Z'' = Some (Inl OverflowError)"
    by (simp add: best_first_search_def real_heuristic cities_far_def)
  have d: "dom cities_far = {''A'', ''B'', ''C'', ''Z''}" by (auto simp: cities_far_def)
  have e: "''A'' \<in> dom cities_no_B" "''Z'' \<in> dom cities_no_B" "''B'' \<notin> dom one_way"
    by (simp_all add: cities_no_B_def one_way_def)
  from a b c d e show ?thesis by (simp add: bfs_same line3_dom)
qed

section \<open>A city without coordinates\<close>

lemma log_KeyError:
  assumes c: "\<forall>c \<in> set evals. \<forall>e. heuristic ops cities goal c = Inl e \<longrightarrow> r = Inl e"
    and d: "\<forall>e. r = Inl e \<longrightarrow> (\<exists>c \<in> set evals. heuristic ops cities goal c = Inl e)"
  shows "(\<forall>c \<in> set evals. c \<notin> dom cities \<longrightarrow> r = Inl (KeyError c)) \<and>
         (\<forall>c \<in> set evals. c \<in> dom cities \<and> goal \<notin> dom cities \<longrightarrow> r = Inl (KeyError goal)) \<and>
         (\<forall>k. r = Inl (KeyError k) \<longrightarrow> k \<notin> dom cities)"
proof (intro conjI ballI allI impI)
  fix k assume "k \<in> set evals" "k \<notin> dom cities"
  with c heuristic_missing_city [of k cities ops goal] show "r = Inl (KeyError k)" by blast
next
  fix k assume "k \<in> set evals" "k \<in> dom cities \<and> goal \<notin> dom cities"
  with c heuristic_missing_goal [of k cities goal ops] show "r = Inl (KeyError goal)" by blast
next
  fix k assume "r = Inl (KeyError k)"
  with d obtain x where "heuristic ops cities goal x = Inl (KeyError k)" by blast
  from heuristic_KeyError [OF this] show "k \<notin> dom cities" by blast
qed

text \<open>
  Claim C6. A call of \<open>best_first_search\<close> or of \<open>a_star\<close> on a graph with finitely many
  keys ends, and its outcome is tied to the evaluations of the heuristic that the run
  has made, which the log lists: when one of them was on a city without coordinates,
  the outcome of the call is the \<^verbatim>\<open>KeyError\<close> that names this city, not a path and not
  \<^verbatim>\<open>None\<close>; when the goal has no coordinates, it is the \<^verbatim>\<open>KeyError\<close> that names the
  goal. A \<^verbatim>\<open>KeyError\<close> that is the outcome names a city without coordinates. The
  log is not empty: \<open>best_first_search\<close> evaluates the heuristic of the start, and
  \<open>a_star\<close> that of the first neighbour of a start that is not the goal. The heuristic
  itself raises on a city without coordinates: it assumes no distance.
\<close>

theorem missing_coordinate_surfaces:
  assumes "finite (dom graph)"
  shows "(\<exists>r evals. best_first_search_log ops graph cities start goal = Some (r, evals) \<and>
            best_first_search ops graph cities start goal = Some r \<and>
            start \<in> set evals \<and>
            (\<forall>c \<in> set evals. c \<notin> dom cities \<longrightarrow> r = Inl (KeyError c)) \<and>
            (\<forall>c \<in> set evals. c \<in> dom cities \<and> goal \<notin> dom cities \<longrightarrow> r = Inl (KeyError goal)) \<and>
            (\<forall>k. r = Inl (KeyError k) \<longrightarrow> k \<notin> dom cities)) \<and>
         (\<exists>r evals. a_star_log ops graph cities start goal = Some (r, evals) \<and>
            a_star ops graph cities start goal = Some r \<and>
            (\<forall>n rest. start \<noteq> goal \<and> graph_get graph start = n # rest \<longrightarrow> n \<in> set evals) \<and>
            (\<forall>c \<in> set evals. c \<notin> dom cities \<longrightarrow> r = Inl (KeyError c)) \<and>
            (\<forall>c \<in> set evals. c \<in> dom cities \<and> goal \<notin> dom cities \<longrightarrow> r = Inl (KeyError goal)) \<and>
            (\<forall>k. r = Inl (KeyError k) \<longrightarrow> k \<notin> dom cities)) \<and>
         (city \<notin> dom cities \<longrightarrow> heuristic ops cities goal city = Inl (KeyError city))"
proof (intro conjI)
  from best_first_search_log_total [OF assms, of ops cities start goal]
  obtain r evals
    where a: "best_first_search_log ops graph cities start goal = Some (r, evals)"
      and b: "best_first_search ops graph cities start goal = Some r"
      and s: "start \<in> set evals"
      and c: "\<forall>c \<in> set evals. \<forall>e. heuristic ops cities goal c = Inl e \<longrightarrow> r = Inl e"
      and d: "\<forall>e. r = Inl e \<longrightarrow> (\<exists>c \<in> set evals. heuristic ops cities goal c = Inl e)"
    by blast
  from a b s log_KeyError [OF c d]
  show "\<exists>r evals. best_first_search_log ops graph cities start goal = Some (r, evals) \<and>
            best_first_search ops graph cities start goal = Some r \<and>
            start \<in> set evals \<and>
            (\<forall>c \<in> set evals. c \<notin> dom cities \<longrightarrow> r = Inl (KeyError c)) \<and>
            (\<forall>c \<in> set evals. c \<in> dom cities \<and> goal \<notin> dom cities \<longrightarrow> r = Inl (KeyError goal)) \<and>
            (\<forall>k. r = Inl (KeyError k) \<longrightarrow> k \<notin> dom cities)"
    by blast
next
  from a_star_log_total [OF assms, of ops cities start goal]
  obtain r evals
    where a: "a_star_log ops graph cities start goal = Some (r, evals)"
      and b: "a_star ops graph cities start goal = Some r"
      and s: "\<forall>n rest. start \<noteq> goal \<and> graph_get graph start = n # rest \<longrightarrow> n \<in> set evals"
      and c: "\<forall>c \<in> set evals. \<forall>e. heuristic ops cities goal c = Inl e \<longrightarrow> r = Inl e"
      and d: "\<forall>e. r = Inl e \<longrightarrow> (\<exists>c \<in> set evals. heuristic ops cities goal c = Inl e)"
    by blast
  from a b s log_KeyError [OF c d]
  show "\<exists>r evals. a_star_log ops graph cities start goal = Some (r, evals) \<and>
            a_star ops graph cities start goal = Some r \<and>
            (\<forall>n rest. start \<noteq> goal \<and> graph_get graph start = n # rest \<longrightarrow> n \<in> set evals) \<and>
            (\<forall>c \<in> set evals. c \<notin> dom cities \<longrightarrow> r = Inl (KeyError c)) \<and>
            (\<forall>c \<in> set evals. c \<in> dom cities \<and> goal \<notin> dom cities \<longrightarrow> r = Inl (KeyError goal)) \<and>
            (\<forall>k. r = Inl (KeyError k) \<longrightarrow> k \<notin> dom cities)"
    by blast
next
  show "city \<notin> dom cities \<longrightarrow> heuristic ops cities goal city = Inl (KeyError city)"
    by (simp add: heuristic_missing_city)
qed

text \<open>
  The theorem on the line A - B - C from A to C, where the city B has no coordinates:
  both searches evaluate the heuristic of B when they expand A, and the calls end with
  the \<^verbatim>\<open>KeyError\<close> for B.
\<close>

theorem missing_coordinate_surfaces_witness:
  "finite (dom line3) \<and> ''B'' \<notin> dom cities_no_B \<and>
   best_first_search_log real_ops line3 cities_no_B ''A'' ''C'' =
     Some (Inl (KeyError ''B''), [''A'', ''B'']) \<and>
   best_first_search real_ops line3 cities_no_B ''A'' ''C'' = Some (Inl (KeyError ''B'')) \<and>
   a_star_log real_ops line3 cities_no_B ''A'' ''C'' = Some (Inl (KeyError ''B''), [''B'']) \<and>
   a_star real_ops line3 cities_no_B ''A'' ''C'' = Some (Inl (KeyError ''B'')) \<and>
   heuristic real_ops cities_no_B ''C'' ''B'' = Inl (KeyError ''B'')"
proof -
  have b: "''B'' \<notin> dom cities_no_B" by (simp add: cities_no_B_def)
  have h: "heuristic real_ops cities_no_B ''C'' ''A'' = Inr 2"
    "heuristic real_ops cities_no_B ''C'' ''B'' = Inl (KeyError ''B'')"
    by (simp_all add: real_heuristic cities_no_B_def)
  have l1: "best_first_search_log real_ops line3 cities_no_B ''A'' ''C'' =
      Some (Inl (KeyError ''B''), [''A'', ''B''])"
    by (simp add: best_first_search_log_def best_first_loop_log.simps h line3_get
        heappop_def heappush_def)
  have l2: "a_star_log real_ops line3 cities_no_B ''A'' ''C'' = Some (Inl (KeyError ''B''), [''B''])"
    by (simp add: a_star_log_def a_star_loop_log.simps h line3_get
        heappop_def heappush_def real_ops_simps)
  from missing_coordinate_surfaces [OF line3_finite, where ops = real_ops
      and cities = cities_no_B and start = "''A''" and goal = "''C''" and city = "''B''"]
    b l1 l2 line3_finite
  show ?thesis by simp
qed

section \<open>Breadth-first search returns a shortest path\<close>

lemma level_invD:
  assumes "level_inv g s t L Q V"
  shows "1 \<le> L" "t \<notin> V" "frontier_ok g s L Q" "shorter_visited g s L V"
    "level_covered g s L Q V" "edges_covered g s Q V"
  using assms unfolding level_inv_def by blast+

lemma level_init: "level_inv g s t 1 [(s, [s])] {}"
proof -
  have "frontier_ok g s 1 [(s, [s])]" by (simp add: frontier_ok_def)
  moreover have "shorter_visited g s 1 {}"
    unfolding shorter_visited_def using walk_not_Nil by fastforce
  moreover have "level_covered g s 1 [(s, [s])] {}"
    unfolding level_covered_def
  proof (intro allI impI)
    fix q assume q: "walk g q \<and> hd q = s \<and> length q = 1"
    then obtain a where "q = [a]" by (cases q) auto
    with q have "q = [s]" by simp
    then show "last q \<in> {} \<or> (\<exists>p. (last q, p) \<in> set [(s, [s])] \<and> length p = 1)"
      by simp
  qed
  moreover have "edges_covered g s [(s, [s])] {}" by (simp add: edges_covered_def)
  ultimately show ?thesis by (simp add: level_inv_def)
qed

lemma level_shift:
  assumes inv: "level_inv g s t L Q V"
    and all: "\<forall>c p. (c, p) \<in> set Q \<longrightarrow> length p = Suc L"
  shows "level_inv g s t (Suc L) Q V"
proof -
  note L = level_invD(1) [OF inv] and t = level_invD(2) [OF inv]
    and f = level_invD(3) [OF inv] and sv = level_invD(4) [OF inv]
    and lc = level_invD(5) [OF inv] and ec = level_invD(6) [OF inv]
  have f': "frontier_ok g s (Suc L) Q"
    using f all unfolding frontier_ok_def by blast
  have sv': "shorter_visited g s (Suc L) V"
    unfolding shorter_visited_def
  proof (intro allI impI)
    fix q assume q: "walk g q \<and> hd q = s \<and> length q < Suc L"
    show "last q \<in> V"
    proof (cases "length q < L")
      case True
      with sv q show ?thesis unfolding shorter_visited_def by blast
    next
      case False
      with q have "length q = L" by simp
      with lc q have "last q \<in> V \<or> (\<exists>p. (last q, p) \<in> set Q \<and> length p = L)"
        unfolding level_covered_def by blast
      then show ?thesis
      proof
        assume "last q \<in> V"
        then show ?thesis .
      next
        assume "\<exists>p. (last q, p) \<in> set Q \<and> length p = L"
        then obtain p where p: "(last q, p) \<in> set Q" "length p = L" by blast
        from all p(1) have "length p = Suc L" by blast
        with p(2) show ?thesis by simp
      qed
    qed
  qed
  have lc': "level_covered g s (Suc L) Q V"
    unfolding level_covered_def
  proof (intro allI impI)
    fix q assume q: "walk g q \<and> hd q = s \<and> length q = Suc L"
    let ?q' = "butlast q"
    from q have len: "length ?q' = L" by simp
    with L have "0 < length ?q'" by linarith
    then have ne': "?q' \<noteq> []" by (rule length_greater_0_conv [THEN iffD1])
    from q have "q \<noteq> []" by auto
    then have qs: "q = ?q' @ [last q]" by simp
    with q have "walk g (?q' @ [last q])" by simp
    with ne' have w': "walk g ?q'" and e: "last q \<in> set (graph_get g (last ?q'))"
      by (simp_all add: walk_snoc)
    from ne' have "hd (?q' @ [last q]) = hd ?q'" by simp
    with qs q have h': "hd ?q' = s" by simp
    from len have "length ?q' < Suc L" by simp
    with sv' w' h' have v: "last ?q' \<in> V" unfolding shorter_visited_def by blast
    from ec v e w' h' have "last q \<in> V \<or> (\<exists>p. (last q, p) \<in> set Q \<and> length p \<le> Suc (length ?q'))"
      unfolding edges_covered_def by blast
    with all show "last q \<in> V \<or> (\<exists>p. (last q, p) \<in> set Q \<and> length p = Suc L)"
      by blast
  qed
  from L t f' sv' lc' ec show ?thesis unfolding level_inv_def by simp
qed

lemma level_empty:
  assumes inv: "level_inv g s t L [] V" and w: "walk g q" "hd q = s" "last q = t"
  shows False
proof -
  have "level_inv g s t (L + k) [] V" for k
  proof (induction k)
    case 0
    from inv show ?case by simp
  next
    case (Suc k)
    from level_shift [OF Suc] show ?case by simp
  qed
  then have i: "level_inv g s t (L + length q) [] V" .
  from level_invD(1) [OF inv] have "length q < L + length q" by simp
  with level_invD(4) [OF i] w have "t \<in> V" unfolding shorter_visited_def by blast
  with level_invD(2) [OF inv] show False by simp
qed

lemma level_normal:
  assumes inv: "level_inv g s t L ((c, pc) # rest) V"
  shows "\<exists>L'. level_inv g s t L' ((c, pc) # rest) V \<and> length pc = L'"
proof (cases "length pc = L")
  case True
  with inv show ?thesis by blast
next
  case False
  note f = level_invD(3) [OF inv]
  from f False have pc: "length pc = Suc L" unfolding frontier_ok_def by auto
  have "\<forall>c' p. (c', p) \<in> set ((c, pc) # rest) \<longrightarrow> length p = Suc L"
  proof (intro allI impI)
    fix c' p assume m: "(c', p) \<in> set ((c, pc) # rest)"
    from f m have two: "length p = L \<or> length p = Suc L" unfolding frontier_ok_def by blast
    from f have "sorted (map (\<lambda>e. length (snd e)) ((c, pc) # rest))"
      unfolding frontier_ok_def by blast
    with m have "length pc \<le> length p" by auto
    with pc two show "length p = Suc L" by auto
  qed
  from level_shift [OF inv this] pc show ?thesis by blast
qed

lemma level_goal:
  assumes inv: "level_inv g s t L ((t, pc) # rest) V" and len: "length pc = L"
    and w: "walk g q" "hd q = s" "last q = t"
  shows "length pc \<le> length q"
proof (rule ccontr)
  assume "\<not> length pc \<le> length q"
  with len have "length q < L" by simp
  with level_invD(4) [OF inv] w have "t \<in> V" unfolding shorter_visited_def by blast
  with level_invD(2) [OF inv] show False by simp
qed

lemma level_skip:
  assumes inv: "level_inv g s t L ((c, pc) # rest) V" and c: "c \<in> V"
  shows "level_inv g s t L rest V"
proof -
  note L = level_invD(1) [OF inv] and t = level_invD(2) [OF inv]
    and f = level_invD(3) [OF inv] and sv = level_invD(4) [OF inv]
    and lc = level_invD(5) [OF inv] and ec = level_invD(6) [OF inv]
  have f': "frontier_ok g s L rest"
    using f unfolding frontier_ok_def by auto
  have lc': "level_covered g s L rest V"
    unfolding level_covered_def
  proof (intro allI impI)
    fix q assume q: "walk g q \<and> hd q = s \<and> length q = L"
    with lc have "last q \<in> V \<or> (\<exists>p. (last q, p) \<in> set ((c, pc) # rest) \<and> length p = L)"
      unfolding level_covered_def by blast
    with c show "last q \<in> V \<or> (\<exists>p. (last q, p) \<in> set rest \<and> length p = L)" by auto
  qed
  have ec': "edges_covered g s rest V"
    unfolding edges_covered_def
  proof (intro allI impI)
    fix v x q
    assume a: "v \<in> V \<and> x \<in> set (graph_get g v) \<and> walk g q \<and> hd q = s \<and> last q = v"
    with ec have "x \<in> V \<or> (\<exists>p. (x, p) \<in> set ((c, pc) # rest) \<and> length p \<le> Suc (length q))"
      unfolding edges_covered_def by blast
    with c show "x \<in> V \<or> (\<exists>p. (x, p) \<in> set rest \<and> length p \<le> Suc (length q))" by auto
  qed
  from L t f' sv lc' ec' show ?thesis unfolding level_inv_def by simp
qed

lemma level_expand:
  assumes inv: "level_inv g s t L ((c, pc) # rest) V" and len: "length pc = L"
    and c: "c \<notin> V" and ct: "c \<noteq> t"
  shows "level_inv g s t L (rest @ map (\<lambda>n. (n, pc @ [n])) (graph_get g c)) (insert c V)"
proof -
  let ?new = "map (\<lambda>n. (n, pc @ [n])) (graph_get g c)"
  note L = level_invD(1) [OF inv] and t = level_invD(2) [OF inv]
    and f = level_invD(3) [OF inv] and sv = level_invD(4) [OF inv]
    and lc = level_invD(5) [OF inv] and ec = level_invD(6) [OF inv]
  from f have pc: "walk g pc" "hd pc = s" "last pc = c"
    unfolding frontier_ok_def by auto
  from pc(1) have ne: "pc \<noteq> []" by (rule walk_not_Nil)
  have rest_ok: "\<forall>c' p. (c', p) \<in> set rest \<longrightarrow>
      walk g p \<and> hd p = s \<and> last p = c' \<and> (length p = L \<or> length p = Suc L)"
    using f unfolding frontier_ok_def by auto
  have new_ok: "\<forall>c' p. (c', p) \<in> set ?new \<longrightarrow>
      walk g p \<and> hd p = s \<and> last p = c' \<and> length p = Suc L"
    using pc ne len by (auto simp: walk_snoc)
  have srt: "sorted (map (\<lambda>e. length (snd e)) (rest @ ?new))"
  proof -
    from f have "sorted (map (\<lambda>e. length (snd e)) rest)" unfolding frontier_ok_def by simp
    moreover have "map (\<lambda>e. length (snd e)) ?new = replicate (length (graph_get g c)) (Suc L)"
      using len by (simp add: map_replicate_const comp_def)
    moreover have "\<forall>e \<in> set rest. length (snd e) \<le> Suc L"
      using rest_ok by force
    ultimately show ?thesis by (auto simp: sorted_append)
  qed
  have all_ok: "\<forall>c' p. (c', p) \<in> set (rest @ ?new) \<longrightarrow>
      walk g p \<and> hd p = s \<and> last p = c' \<and> (length p = L \<or> length p = Suc L)"
  proof (intro allI impI)
    fix c' p assume "(c', p) \<in> set (rest @ ?new)"
    then have "(c', p) \<in> set rest \<or> (c', p) \<in> set ?new" by simp
    with rest_ok new_ok
    show "walk g p \<and> hd p = s \<and> last p = c' \<and> (length p = L \<or> length p = Suc L)"
      by blast
  qed
  from all_ok srt have f': "frontier_ok g s L (rest @ ?new)"
    unfolding frontier_ok_def by (rule conjI)
  have sv': "shorter_visited g s L (insert c V)"
    using sv unfolding shorter_visited_def by blast
  have lc': "level_covered g s L (rest @ ?new) (insert c V)"
    unfolding level_covered_def
  proof (intro allI impI)
    fix q assume q: "walk g q \<and> hd q = s \<and> length q = L"
    with lc have "last q \<in> V \<or> (\<exists>p. (last q, p) \<in> set ((c, pc) # rest) \<and> length p = L)"
      unfolding level_covered_def by blast
    then show "last q \<in> insert c V \<or> (\<exists>p. (last q, p) \<in> set (rest @ ?new) \<and> length p = L)"
      by auto
  qed
  have ec': "edges_covered g s (rest @ ?new) (insert c V)"
    unfolding edges_covered_def
  proof (intro allI impI)
    fix v x q
    assume a: "v \<in> insert c V \<and> x \<in> set (graph_get g v) \<and> walk g q \<and> hd q = s \<and> last q = v"
    show "x \<in> insert c V \<or> (\<exists>p. (x, p) \<in> set (rest @ ?new) \<and> length p \<le> Suc (length q))"
    proof (cases "v = c")
      case True
      have "L \<le> length q"
      proof (rule ccontr)
        assume "\<not> L \<le> length q"
        then have "length q < L" by simp
        with sv a True have "c \<in> V" unfolding shorter_visited_def by blast
        with c show False by simp
      qed
      moreover from a True have "(x, pc @ [x]) \<in> set ?new" by auto
      ultimately have "(x, pc @ [x]) \<in> set (rest @ ?new) \<and> length (pc @ [x]) \<le> Suc (length q)"
        using len by simp
      then show ?thesis by blast
    next
      case False
      with a have "v \<in> V" by simp
      with ec a have "x \<in> V \<or> (\<exists>p. (x, p) \<in> set ((c, pc) # rest) \<and> length p \<le> Suc (length q))"
        unfolding edges_covered_def by blast
      then show ?thesis by auto
    qed
  qed
  from t ct have "t \<notin> insert c V" by simp
  with L f' sv' lc' ec' show ?thesis unfolding level_inv_def by simp
qed

lemma bfs_loop_shortest:
  assumes fin: "finite (dom g)" and w: "walk g w" "hd w = s" "last w = t"
  shows "level_inv g s t L Q V \<Longrightarrow>
    \<exists>p. bfs_loop g t Q V = Some (Path p) \<and> walk g p \<and> hd p = s \<and> last p = t \<and>
        (\<forall>q. walk g q \<and> hd q = s \<and> last q = t \<longrightarrow> length p \<le> length q)"
proof (induction "(card (dom g - V), length Q)" arbitrary: L Q V rule: less_induct)
  case less
  show ?case
  proof (cases Q)
    case Nil
    with less.prems level_empty [OF _ w] show ?thesis by blast
  next
    case (Cons e rest)
    obtain c pc where e: "e = (c, pc)" by (cases e)
    note Q = Cons [unfolded e]
    from level_normal [OF less.prems [unfolded Q]] obtain L'
      where inv: "level_inv g s t L' ((c, pc) # rest) V" and len: "length pc = L'" by blast
    show ?thesis
    proof (cases "c = t")
      case True
      then have r: "bfs_loop g t Q V = Some (Path pc)"
        unfolding Q by (subst bfs_loop.simps) simp
      from level_invD(3) [OF inv] have "walk g pc" "hd pc = s" "last pc = c"
        unfolding frontier_ok_def by auto
      moreover have "\<forall>q. walk g q \<and> hd q = s \<and> last q = t \<longrightarrow> length pc \<le> length q"
        using level_goal [OF inv [unfolded True] len] by blast
      ultimately show ?thesis using r True by blast
    next
      case False
      show ?thesis
      proof (cases "c \<in> V")
        case True
        with False have eq: "bfs_loop g t Q V = bfs_loop g t rest V"
          unfolding Q by (subst bfs_loop.simps) simp
        have m: "(card (dom g - V), length rest) < (card (dom g - V), length Q)"
          unfolding Q by simp
        from less.hyps [OF m level_skip [OF inv True]] eq show ?thesis by simp
      next
        case fresh: False
        let ?Q = "rest @ map (\<lambda>neighbor. (neighbor, pc @ [neighbor])) (graph_get g c)"
        from False fresh have eq: "bfs_loop g t Q V = bfs_loop g t ?Q (insert c V)"
          unfolding Q by (subst bfs_loop.simps) simp
        have m: "(card (dom g - insert c V), length ?Q) < (card (dom g - V), length Q)"
          unfolding Q by (rule expand_measure [OF fin fresh]) simp
        from less.hyps [OF m level_expand [OF inv len fresh False]] eq show ?thesis by simp
      qed
    qed
  qed
qed

lemma edge_count_mono: "length p \<le> length q \<Longrightarrow> edge_count p \<le> edge_count q"
  by (simp add: edge_count_def diff_le_mono)

text \<open>
  Claim C1. In a graph with finitely many keys in which some walk leads from the start
  to the goal, \<open>bfs\<close> returns a path from the start to the goal that has no more edges
  than any walk from the start to the goal. (The graph need not be symmetric.)
\<close>

theorem bfs_shortest_path:
  assumes "finite (dom graph)" "walk graph w" "hd w = start" "last w = goal"
  shows "\<exists>p. bfs graph start goal = Some (Path p) \<and> simple_path graph start goal p \<and>
           (\<forall>q. walk graph q \<and> hd q = start \<and> last q = goal \<longrightarrow>
              edge_count p \<le> edge_count q)"
proof -
  from bfs_loop_shortest [OF assms level_init] obtain p
    where r: "bfs graph start goal = Some (Path p)"
      and m: "\<forall>q. walk graph q \<and> hd q = start \<and> last q = goal \<longrightarrow> length p \<le> length q"
    unfolding bfs_def by blast
  from bfs_total [OF assms(1), of start goal] r have "simple_path graph start goal p" by auto
  moreover from m have "\<forall>q. walk graph q \<and> hd q = start \<and> last q = goal \<longrightarrow>
      edge_count p \<le> edge_count q"
    using edge_count_mono by blast
  ultimately show ?thesis using r by blast
qed

lemma detour_get:
  "graph_get detour ''A'' = [''D'', ''B'']"
  "graph_get detour ''B'' = [''A'', ''C'']"
  "graph_get detour ''C'' = [''E'', ''B'']"
  "graph_get detour ''D'' = [''A'', ''E'']"
  "graph_get detour ''E'' = [''D'', ''C'']"
  by (simp_all add: detour_def load_adjacencies_def graph_get_setdefault_append graph_get_empty)

lemma detour_finite: "finite (dom detour)"
  by (simp add: detour_def load_adjacencies_def setdefault_append_def)

lemma bfs_detour: "bfs detour ''A'' ''C'' = Some (Path [''A'', ''B'', ''C''])"
  by (simp add: bfs_def bfs_loop.simps detour_get)

theorem bfs_shortest_path_witness:
  "finite (dom detour) \<and> walk detour [''A'', ''D'', ''E'', ''C''] \<and>
   bfs detour ''A'' ''C'' = Some (Path [''A'', ''B'', ''C'']) \<and>
   simple_path detour ''A'' ''C'' [''A'', ''B'', ''C''] \<and>
   edge_count [''A'', ''B'', ''C''] \<le> edge_count [''A'', ''D'', ''E'', ''C'']"
proof -
  have w: "walk detour [''A'', ''D'', ''E'', ''C'']" by (simp add: detour_get)
  from bfs_shortest_path [OF detour_finite w, of "''A''" "''C''"] bfs_detour
  have "simple_path detour ''A'' ''C'' [''A'', ''B'', ''C''] \<and>
        (\<forall>q. walk detour q \<and> hd q = ''A'' \<and> last q = ''C'' \<longrightarrow>
           edge_count [''A'', ''B'', ''C''] \<le> edge_count q)"
    by auto
  with w detour_finite bfs_detour show ?thesis by auto
qed

end
